theory Spec2Isabelle
  imports Complex_Main "HOL-Library.Word" "HOL-Library.Stream"
begin

section \<open>Snake on an 8x8 LED grid: the engine and the two input adapters\<close>

text \<open>
  The sketch \<^verbatim>\<open>v2.ino\<close> holds two programs: the tilt variant (input from an ICM-20948
  accelerometer) and the joystick variant. Both share the classes \<^verbatim>\<open>LedMatrix\<close>,
  \<^verbatim>\<open>SoundFX\<close> and \<^verbatim>\<open>SnakeGame\<close> word for word; they differ in the input class and in
  \<^verbatim>\<open>loop()\<close>. Mutation is modelled by explicit state passing; the calls of
  \<^verbatim>\<open>millis()\<close>, \<^verbatim>\<open>analogRead()\<close> and the sensor are parameters; the values returned by
  \<^verbatim>\<open>random(0, 8)\<close> are read from a stream that is part of the state.
\<close>

subsection \<open>Configuration and types\<close>

definition W :: nat where [simp]: "W = 8"
definition H :: nat where [simp]: "H = 8"
definition NUM_LEDS :: nat where [simp]: "NUM_LEDS = W * H"

text \<open>\<^verbatim>\<open>struct Point { int8_t x; int8_t y; }\<close>: a pair of integers; every store into a
  coordinate goes through \<open>int8_t\<close>, the two's complement wrap-around of 8 bits.\<close>

type_synonym Point = "int \<times> int"

definition int8_t :: "int \<Rightarrow> int" where
  "int8_t v = (v + 128) mod 256 - 128"

text \<open>The conversion of an \<^verbatim>\<open>int8_t\<close> argument to a \<^verbatim>\<open>uint8_t\<close> parameter.\<close>

definition uint8_t :: "int \<Rightarrow> nat" where
  "uint8_t v = nat (v mod 256)"

datatype Dir = UP | DOWN | LEFT | RIGHT

subsection \<open>LedMatrix\<close>

text \<open>The pixel buffer of the strip and the frame last pushed to the LEDs. A colour is
  the triple handed to \<^verbatim>\<open>strip.Color\<close>.\<close>

type_synonym rgb = "nat \<times> nat \<times> nat"

record LedMatrix =
  strip :: "rgb list"
  shown :: "rgb list"

definition clear :: "LedMatrix \<Rightarrow> LedMatrix" where
  "clear m = m\<lparr>strip := replicate (length (strip m)) (0, 0, 0)\<rparr>"

definition show_matrix :: "LedMatrix \<Rightarrow> LedMatrix" where
  "show_matrix m = m\<lparr>shown := strip m\<rparr>"

definition xyToIndex :: "nat \<Rightarrow> nat \<Rightarrow> nat" where
  "xyToIndex x y = y * W + x"

definition setXY :: "nat \<Rightarrow> nat \<Rightarrow> rgb \<Rightarrow> LedMatrix \<Rightarrow> LedMatrix" where
  "setXY x y c m =
     (if x \<ge> W \<or> y \<ge> H then m else m\<lparr>strip := (strip m)[xyToIndex x y := c]\<rparr>)"

definition drawGameOverCross :: "LedMatrix \<Rightarrow> LedMatrix" where
  "drawGameOverCross m =
     show_matrix
       (fold (\<lambda>i m'. setXY (7 - i) i (255, 0, 0) (setXY i i (255, 0, 0) m')) [0..<8] (clear m))"

subsection \<open>SoundFX\<close>

text \<open>The buzzer is modelled by the log of what was sent to it.\<close>

datatype sound = Tone nat nat | NoTone | Delay nat

definition eatApple :: "sound list \<Rightarrow> sound list" where
  "eatApple evs = evs @ [Tone 880 60]"

definition gameOver :: "sound list \<Rightarrow> sound list" where
  "gameOver evs =
     evs @ [Tone 440 140, Delay 170, Tone 330 140, Delay 170, Tone 220 220, Delay 260, NoTone]"

subsection \<open>SnakeGame\<close>

text \<open>
  The fields of the class. \<open>snake\<close> is the array of \<open>NUM_LEDS\<close> points, of which the
  first \<open>len\<close> are the body, head first. \<open>lastStep\<close> and \<open>stepMs\<close> are
  \<^verbatim>\<open>unsigned long\<close>, 32 bits on the boards the sketch targets. \<open>rnd\<close> is not a field of
  the class: it is the sequence of values that the coming calls of \<^verbatim>\<open>random(0, 8)\<close>
  return.
\<close>

record SnakeGame =
  matrix :: LedMatrix
  sfx :: "sound list"
  snake :: "Point list"
  len :: nat
  apple :: Point
  dir :: Dir
  pending :: Dir
  gameOverFlag :: bool
  lastStep :: "32 word"
  stepMs :: "32 word"
  rnd :: "int stream"

definition opposite :: "Dir \<Rightarrow> Dir \<Rightarrow> bool" where
  "opposite a b \<longleftrightarrow>
     (a = UP \<and> b = DOWN) \<or> (a = DOWN \<and> b = UP) \<or> (a = LEFT \<and> b = RIGHT) \<or> (a = RIGHT \<and> b = LEFT)"

text \<open>The loop shared by \<^verbatim>\<open>snakeHas\<close> and \<^verbatim>\<open>snakeHasExceptTail\<close>:
  \<^verbatim>\<open>for (i = ...; i < n; i++) if (snake[i].x == x && snake[i].y == y) return true;\<close>\<close>

function scan_snake :: "Point list \<Rightarrow> nat \<Rightarrow> nat \<Rightarrow> int \<Rightarrow> int \<Rightarrow> bool" where
  "scan_snake sn n i x y =
     (if i < n
      then (if fst (sn ! i) = x \<and> snd (sn ! i) = y then True else scan_snake sn n (i + 1) x y)
      else False)"
  by pat_completeness auto
termination
  by (relation "measure (\<lambda>(sn, n, i, x, y). n - i)") auto

declare scan_snake.simps [simp del]

definition snakeHas :: "SnakeGame \<Rightarrow> int \<Rightarrow> int \<Rightarrow> bool" where
  "snakeHas g x y = scan_snake (snake g) (len g) 0 x y"

definition snakeHasExceptTail :: "SnakeGame \<Rightarrow> int \<Rightarrow> int \<Rightarrow> bool" where
  "snakeHasExceptTail g x y =
     (if len g = 0 then False else scan_snake (snake g) (len g - 1) 0 x y)"

text \<open>\<^verbatim>\<open>spawnApple\<close> draws two values per round and repeats until the cell is free. The
  loop has no exit but that one, so the function is partial: \<open>None\<close> is the run that
  never returns.\<close>

partial_function (option) spawnApple :: "SnakeGame \<Rightarrow> SnakeGame option" where
  "spawnApple g =
     (let ax = shd (rnd g);
          ay = shd (stl (rnd g));
          g' = g\<lparr>rnd := stl (stl (rnd g))\<rparr>
      in if \<not> snakeHas g' ax ay
         then Some (g'\<lparr>apple := (int8_t ax, int8_t ay)\<rparr>)
         else spawnApple g')"

definition triggerGameOver :: "SnakeGame \<Rightarrow> SnakeGame" where
  "triggerGameOver g =
     g\<lparr>gameOverFlag := True, matrix := drawGameOverCross (matrix g), sfx := gameOver (sfx g)\<rparr>"

text \<open>The parts of \<^verbatim>\<open>step\<close>, in the order of the source: the heading, the next cell,
  the wall test, \<^verbatim>\<open>ate\<close>, the shift of the body.\<close>

definition resolve_dir :: "SnakeGame \<Rightarrow> SnakeGame" where
  "resolve_dir g = (if \<not> opposite (dir g) (pending g) then g\<lparr>dir := pending g\<rparr> else g)"

definition next_point :: "SnakeGame \<Rightarrow> Point" where
  "next_point g =
     (let h = snake g ! 0
      in case dir g of
           UP \<Rightarrow> (fst h, int8_t (snd h - 1))
         | DOWN \<Rightarrow> (fst h, int8_t (snd h + 1))
         | LEFT \<Rightarrow> (int8_t (fst h - 1), snd h)
         | RIGHT \<Rightarrow> (int8_t (fst h + 1), snd h))"

definition outside :: "Point \<Rightarrow> bool" where
  "outside p \<longleftrightarrow> fst p < 0 \<or> fst p \<ge> int W \<or> snd p < 0 \<or> snd p \<ge> int H"

definition ate :: "SnakeGame \<Rightarrow> Point \<Rightarrow> bool" where
  "ate g p \<longleftrightarrow> fst p = fst (apple g) \<and> snd p = snd (apple g)"

text \<open>\<^verbatim>\<open>for (int i = len - 1; i > 0; i--) snake[i] = snake[i - 1];\<close>, called with
  \<open>i = len - 1\<close>.\<close>

fun shift_body :: "Point list \<Rightarrow> nat \<Rightarrow> Point list" where
  "shift_body sn 0 = sn"
| "shift_body sn (Suc i) = shift_body (sn[Suc i := sn ! i]) i"

definition step :: "SnakeGame \<Rightarrow> SnakeGame option" where
  "step g0 =
     (let g = resolve_dir g0;
          nxt = next_point g
      in if outside nxt then Some (triggerGameOver g)
         else if ate g nxt \<and> snakeHas g (fst nxt) (snd nxt) then Some (triggerGameOver g)
         else if \<not> ate g nxt \<and> snakeHasExceptTail g (fst nxt) (snd nxt)
           then Some (triggerGameOver g)
         else
           let g1 = (if ate g nxt \<and> len g < NUM_LEDS then g\<lparr>len := (len g + 1) mod 256\<rparr> else g);
               g2 = g1\<lparr>snake := (shift_body (snake g1) (len g1 - 1))[0 := nxt]\<rparr>
           in if ate g nxt
              then Option.bind (spawnApple (g2\<lparr>sfx := eatApple (sfx g2)\<rparr>))
                     (\<lambda>g3. Some (if stepMs g3 > 90 then g3\<lparr>stepMs := stepMs g3 - 12\<rparr> else g3))
              else Some g2)"

definition draw :: "SnakeGame \<Rightarrow> SnakeGame" where
  "draw g =
     g\<lparr>matrix :=
         show_matrix
           (fold (\<lambda>i m. if i = 0
                        then setXY (uint8_t (fst (snake g ! i))) (uint8_t (snd (snake g ! i)))
                               (220, 220, 220) m
                        else setXY (uint8_t (fst (snake g ! i))) (uint8_t (snd (snake g ! i)))
                               (0, 0, 180) m)
              [0..<len g]
              (setXY (uint8_t (fst (apple g))) (uint8_t (snd (apple g))) (0, 180, 0)
                 (clear (matrix g))))\<rparr>"

definition reset :: "32 word \<Rightarrow> SnakeGame \<Rightarrow> SnakeGame option" where
  "reset now g =
     Option.bind
       (spawnApple
          (g\<lparr>gameOverFlag := False, dir := RIGHT, pending := RIGHT, stepMs := 300,
             lastStep := now, len := 3,
             snake := (snake g)[0 := (3, 4), 1 := (2, 4), 2 := (1, 4)]\<rparr>))
       (\<lambda>g'. Some (draw g'))"

definition isGameOver :: "SnakeGame \<Rightarrow> bool" where
  "isGameOver g = gameOverFlag g"

definition getDir :: "SnakeGame \<Rightarrow> Dir" where
  "getDir g = dir g"

definition setPending :: "Dir \<Rightarrow> SnakeGame \<Rightarrow> SnakeGame" where
  "setPending d g = g\<lparr>pending := d\<rparr>"

text \<open>The cadence test of \<^verbatim>\<open>update\<close>: \<^verbatim>\<open>now - lastStep >= stepMs\<close>, all three
  \<^verbatim>\<open>unsigned long\<close>.\<close>

definition due :: "32 word \<Rightarrow> SnakeGame \<Rightarrow> bool" where
  "due now g \<longleftrightarrow> now - lastStep g \<ge> stepMs g"

definition update :: "32 word \<Rightarrow> SnakeGame \<Rightarrow> SnakeGame option" where
  "update now g =
     (if gameOverFlag g then Some (g\<lparr>matrix := drawGameOverCross (matrix g)\<rparr>)
      else if due now g
        then Option.bind (step (g\<lparr>lastStep := now\<rparr>)) (\<lambda>g'. Some (draw g'))
        else Some (draw g))"

text \<open>The state of the global objects before \<^verbatim>\<open>setup()\<close>: the member initialisers of
  the class, the array zeroed as static storage is.\<close>

definition power_on :: "int stream \<Rightarrow> SnakeGame" where
  "power_on rs =
     \<lparr>matrix = \<lparr>strip = replicate NUM_LEDS (0, 0, 0), shown = replicate NUM_LEDS (0, 0, 0)\<rparr>,
      sfx = [], snake = replicate NUM_LEDS (0, 0), len = 3, apple = (0, 0),
      dir = RIGHT, pending = RIGHT, gameOverFlag = False, lastStep = 0, stepMs = 300,
      rnd = rs\<rparr>"

text \<open>What the engine's callers can do to it, and a run of such calls.\<close>

datatype cmd = Reset "32 word" | SetPending Dir | Update "32 word"

fun exec :: "cmd \<Rightarrow> SnakeGame \<Rightarrow> SnakeGame option" where
  "exec (Reset now) g = reset now g"
| "exec (SetPending d) g = Some (setPending d g)"
| "exec (Update now) g = update now g"

fun run :: "cmd list \<Rightarrow> SnakeGame \<Rightarrow> SnakeGame option" where
  "run [] g = Some g"
| "run (c # cs) g = Option.bind (exec c g) (run cs)"

text \<open>The states reachable from \<^verbatim>\<open>reset()\<close>: the first reset is the one of
  \<^verbatim>\<open>begin()\<close>; \<^verbatim>\<open>random(0, 8)\<close> returns values from 0 to 7.\<close>

inductive reachable :: "SnakeGame \<Rightarrow> bool" where
  boot: "sset rs \<subseteq> {0..7} \<Longrightarrow> reset now (power_on rs) = Some g \<Longrightarrow> reachable g"
| again: "reachable g \<Longrightarrow> reset now g = Some g' \<Longrightarrow> reachable g'"
| heading: "reachable g \<Longrightarrow> reachable (setPending d g)"
| tick: "reachable g \<Longrightarrow> update now g = Some g' \<Longrightarrow> reachable g'"

subsection \<open>InputICM20948 (tilt variant)\<close>

text \<open>
  The \<^verbatim>\<open>float\<close> values of the class are finite binary32 numbers; they are modelled by the
  real numbers they denote. Comparison, \<^verbatim>\<open>fabs\<close> and unary minus are exact on them. The
  arithmetic of the platform (\<^verbatim>\<open>+\<close>, \<^verbatim>\<open>-\<close>, \<^verbatim>\<open>*\<close>, \<^verbatim>\<open>/\<close> on \<^verbatim>\<open>float\<close>) rounds,
  in a way that the sketch does not fix: it is a parameter of the model.
\<close>

record float_arith =
  fadd :: "real \<Rightarrow> real \<Rightarrow> real"
  fsub :: "real \<Rightarrow> real \<Rightarrow> real"
  fmul :: "real \<Rightarrow> real \<Rightarrow> real"
  fdiv :: "real \<Rightarrow> real \<Rightarrow> real"

text \<open>The constants, as the binary32 numbers nearest to the decimal literals of the source:
  \<^verbatim>\<open>0.08f\<close>, \<^verbatim>\<open>0.18f\<close>, \<^verbatim>\<open>0.80f\<close>, \<^verbatim>\<open>0.20f\<close>.\<close>

definition DEAD_G :: real where "DEAD_G = 5368709 / 67108864"
definition TRIG_G :: real where "TRIG_G = 3019899 / 16777216"
definition c080 :: real where "c080 = 13421773 / 16777216"
definition c020 :: real where "c020 = 13421773 / 67108864"

record InputICM20948 =
  ax0 :: real
  ay0 :: real
  fx :: real
  fy :: real

text \<open>\<^verbatim>\<open>readDir\<close>, given the arithmetic \<open>fa\<close> and the two readings \<^verbatim>\<open>imu.accX()\<close> and
  \<^verbatim>\<open>imu.accY()\<close> of this call. It returns the direction and the filter with its new
  smoothed values.\<close>

definition readDir ::
  "float_arith \<Rightarrow> real \<Rightarrow> real \<Rightarrow> Dir \<Rightarrow> InputICM20948 \<Rightarrow> Dir \<times> InputICM20948" where
  "readDir fa accX accY current st =
     (let ax = fdiv fa accX 1000;
          ay = fdiv fa accY 1000;
          dx = fsub fa ax (ax0 st);
          dy = fsub fa ay (ay0 st);
          st' = st\<lparr>fx := fadd fa (fmul fa (fx st) c080) (fmul fa dx c020),
                    fy := fadd fa (fmul fa (fy st) c080) (fmul fa dy c020)\<rparr>
      in if \<bar>fx st'\<bar> < DEAD_G \<and> \<bar>fy st'\<bar> < DEAD_G then (current, st')
         else if \<bar>fx st'\<bar> > \<bar>fy st'\<bar>
           then (if fx st' > TRIG_G \<and> current \<noteq> LEFT then (RIGHT, st')
                 else if fx st' < - TRIG_G \<and> current \<noteq> RIGHT then (LEFT, st')
                 else (current, st'))
           else (if fy st' > TRIG_G \<and> current \<noteq> UP then (DOWN, st')
                 else if fy st' < - TRIG_G \<and> current \<noteq> DOWN then (UP, st')
                 else (current, st')))"


text \<open>The filter as the member initialisers leave it.\<close>

definition filter_init :: InputICM20948 where
  "filter_init = \<lparr>ax0 = 0, ay0 = 0, fx = 0, fy = 0\<rparr>"

text \<open>Arithmetic without rounding, for evaluating the model at inputs where no operation
  rounds.\<close>

definition exact_arith :: float_arith where
  "exact_arith = \<lparr>fadd = (+), fsub = (-), fmul = (*), fdiv = (/)\<rparr>"

subsection \<open>InputJoystick (joystick variant)\<close>

definition DEADZONE :: int where "DEADZONE = 180"

text \<open>\<^verbatim>\<open>read(currentDir, pendingDir)\<close>: \<open>rawX\<close> and \<open>rawY\<close> are the values of the two
  \<^verbatim>\<open>analogRead\<close> calls, numbers of 10 bits; \<open>low\<close> tells whether the button pin reads
  \<^verbatim>\<open>LOW\<close>. \<^verbatim>\<open>pendingDir\<close> is passed by reference: the function returns its new value with
  the click. \<^verbatim>\<open>currentDir\<close> is cast to \<^verbatim>\<open>void\<close>.\<close>

definition read :: "10 word \<Rightarrow> 10 word \<Rightarrow> bool \<Rightarrow> Dir \<Rightarrow> Dir \<Rightarrow> bool \<times> Dir" where
  "read rawX rawY low currentDir pendingDir =
     (let x = uint rawX - 512;
          y = uint rawY - 512;
          p = (if \<bar>x\<bar> > \<bar>y\<bar>
               then (if x > DEADZONE then RIGHT else if x < - DEADZONE then LEFT else pendingDir)
               else (if y > DEADZONE then DOWN else if y < - DEADZONE then UP else pendingDir))
      in (low, p))"

text \<open>\<^verbatim>\<open>loop()\<close> of the joystick variant: \<^verbatim>\<open>pending\<close> starts as the current heading;
  \<open>t_reset\<close> and \<open>t_update\<close> are the two readings of \<^verbatim>\<open>millis()\<close>.\<close>

definition loop_joystick ::
  "10 word \<Rightarrow> 10 word \<Rightarrow> bool \<Rightarrow> 32 word \<Rightarrow> 32 word \<Rightarrow> SnakeGame \<Rightarrow> SnakeGame option" where
  "loop_joystick rawX rawY low t_reset t_update g =
     (let (clicked, p) = read rawX rawY low (getDir g) (getDir g);
          g1 = setPending p g
      in Option.bind (if clicked then reset t_reset g1 else Some g1) (update t_update))"

text \<open>\<^verbatim>\<open>loop()\<close> of the tilt variant; \<open>pressed\<close> tells whether the reset button reads
  \<^verbatim>\<open>LOW\<close>.\<close>

definition loop_tilt ::
  "float_arith \<Rightarrow> bool \<Rightarrow> real \<Rightarrow> real \<Rightarrow> 32 word \<Rightarrow> 32 word \<Rightarrow>
     SnakeGame \<times> InputICM20948 \<Rightarrow> (SnakeGame \<times> InputICM20948) option" where
  "loop_tilt fa pressed accX accY t_reset t_update gs =
     Option.bind (if pressed then reset t_reset (fst gs) else Some (fst gs))
       (\<lambda>g. let (p, st') = readDir fa accX accY (getDir g) (snd gs)
            in Option.bind (update t_update (setPending p g)) (\<lambda>g'. Some (g', st')))"

text \<open>The two halves of \<open>readDir\<close>: the smoothing of the readings, and the decision
  on the smoothed values.\<close>

definition smooth :: "float_arith \<Rightarrow> real \<Rightarrow> real \<Rightarrow> InputICM20948 \<Rightarrow> InputICM20948" where
  "smooth fa accX accY st =
     st\<lparr>fx := fadd fa (fmul fa (fx st) c080) (fmul fa (fsub fa (fdiv fa accX 1000) (ax0 st)) c020),
        fy := fadd fa (fmul fa (fy st) c080) (fmul fa (fsub fa (fdiv fa accY 1000) (ay0 st)) c020)\<rparr>"

definition decide :: "real \<Rightarrow> real \<Rightarrow> Dir \<Rightarrow> Dir" where
  "decide a b current =
     (if \<bar>a\<bar> < DEAD_G \<and> \<bar>b\<bar> < DEAD_G then current
      else if \<bar>a\<bar> > \<bar>b\<bar>
        then (if a > TRIG_G \<and> current \<noteq> LEFT then RIGHT
              else if a < - TRIG_G \<and> current \<noteq> RIGHT then LEFT
              else current)
        else (if b > TRIG_G \<and> current \<noteq> UP then DOWN
              else if b < - TRIG_G \<and> current \<noteq> DOWN then UP
              else current))"

section \<open>Vocabulary of the statements\<close>

text \<open>The body of the snake: the first \<open>len\<close> cells of the array, head first.\<close>

definition body :: "SnakeGame \<Rightarrow> Point list" where
  "body g = take (len g) (snake g)"

text \<open>The cell that \<^verbatim>\<open>step\<close> computes as \<^verbatim>\<open>next\<close>, after it has resolved the heading.\<close>

definition next_cell :: "SnakeGame \<Rightarrow> Point" where
  "next_cell g = next_point (resolve_dir g)"

text \<open>The three ways in which \<^verbatim>\<open>step\<close> calls \<^verbatim>\<open>triggerGameOver\<close>, and the two ways
  in which it goes on: it eats, or it only moves.\<close>

definition crashes :: "SnakeGame \<Rightarrow> bool" where
  "crashes g \<longleftrightarrow>
     outside (next_cell g) \<or>
     (ate g (next_cell g) \<and> snakeHas g (fst (next_cell g)) (snd (next_cell g))) \<or>
     (\<not> ate g (next_cell g) \<and> snakeHasExceptTail g (fst (next_cell g)) (snd (next_cell g)))"

definition eats :: "SnakeGame \<Rightarrow> bool" where
  "eats g \<longleftrightarrow> \<not> crashes g \<and> ate g (next_cell g)"

text \<open>What a step that does not crash leaves behind, before the apple is placed again.\<close>

definition advance :: "SnakeGame \<Rightarrow> SnakeGame" where
  "advance g =
     (let h = resolve_dir g;
          h1 = (if ate g (next_cell g) \<and> len g < NUM_LEDS then h\<lparr>len := (len g + 1) mod 256\<rparr> else h)
      in h1\<lparr>snake := (shift_body (snake h1) (len h1 - 1))[0 := next_cell g]\<rparr>)"

definition speed_up :: "SnakeGame \<Rightarrow> SnakeGame" where
  "speed_up g = (if stepMs g > 90 then g\<lparr>stepMs := stepMs g - 12\<rparr> else g)"

text \<open>The shape of the array and of the body that every operation keeps.\<close>

definition shaped :: "SnakeGame \<Rightarrow> bool" where
  "shaped g \<longleftrightarrow>
     length (snake g) = 64 \<and> 1 \<le> len g \<and> len g \<le> 64 \<and>
     (\<forall>p \<in> set (body g). \<not> outside p) \<and> distinct (body g)"

text \<open>The interval after one more apple: the guarded subtraction at the end of \<^verbatim>\<open>step\<close>.\<close>

definition speed :: "32 word \<Rightarrow> 32 word" where
  "speed v = (if v > 90 then v - 12 else v)"

text \<open>The values that the interval takes in a run: from 300 down to 84 in twelves.\<close>

definition stepMs_ok :: "32 word \<Rightarrow> bool" where
  "stepMs_ok v \<longleftrightarrow> 84 \<le> unat v \<and> unat v \<le> 300 \<and> 12 dvd unat v"

text \<open>The snake covers every cell that \<^verbatim>\<open>random(0, 8)\<close> can draw.\<close>

definition grid_full :: "SnakeGame \<Rightarrow> bool" where
  "grid_full g \<longleftrightarrow> (\<forall>x \<in> {0..7}. \<forall>y \<in> {0..7}. snakeHas g x y)"

text \<open>The neighbour of a cell in a direction, without wrap-around.\<close>

fun ahead :: "Dir \<Rightarrow> Point \<Rightarrow> Point" where
  "ahead UP (x, y) = (x, y - 1)"
| "ahead DOWN (x, y) = (x, y + 1)"
| "ahead LEFT (x, y) = (x - 1, y)"
| "ahead RIGHT (x, y) = (x + 1, y)"

text \<open>The state in which \<^verbatim>\<open>step\<close> calls \<^verbatim>\<open>spawnApple\<close> when \<open>update now\<close> follows
  \<open>setPending d\<close> and the step eats: the snake has advanced and the eat sound is logged.\<close>

definition bitten :: "Dir \<Rightarrow> 32 word \<Rightarrow> SnakeGame \<Rightarrow> SnakeGame" where
  "bitten d now g = (advance (g\<lparr>pending := d, lastStep := now\<rparr>))\<lparr>sfx := eatApple (sfx g)\<rparr>"

text \<open>The apple lies in the grid and off the snake, and the random source stays within
  what \<^verbatim>\<open>random(0, 8)\<close> returns.\<close>

definition apple_free :: "SnakeGame \<Rightarrow> bool" where
  "apple_free g \<longleftrightarrow>
     \<not> outside (apple g) \<and> \<not> snakeHas g (fst (apple g)) (snd (apple g)) \<and> sset (rnd g) \<subseteq> {0..7}"

section \<open>Runs along a path of apples\<close>

text \<open>
  A run in which every step eats: the caller turns the snake through the directions
  \<open>ds\<close>, calling \<open>update\<close> every 300 ms, and every apple is drawn on the cell that the
  head enters next. \<open>trail p ds\<close> are the cells entered from \<open>p\<close>; \<open>no_reverse d ds\<close> says
  that no turn is a reversal; \<open>feed t ds\<close> are the calls, from time \<open>t\<close> on; \<open>flat cs\<close> are
  the values that \<^verbatim>\<open>random\<close> returns when the apples are drawn on the cells \<open>cs\<close>.
\<close>

fun trail :: "Point \<Rightarrow> Dir list \<Rightarrow> Point list" where
  "trail p [] = []"
| "trail p (d # ds) = ahead d p # trail (ahead d p) ds"

fun no_reverse :: "Dir \<Rightarrow> Dir list \<Rightarrow> bool" where
  "no_reverse d [] = True"
| "no_reverse d (e # es) = (\<not> opposite d e \<and> no_reverse e es)"

fun feed :: "32 word \<Rightarrow> Dir list \<Rightarrow> cmd list" where
  "feed t [] = []"
| "feed t (d # ds) = SetPending d # Update (t + 300) # feed (t + 300) ds"

fun flat :: "Point list \<Rightarrow> int list" where
  "flat [] = []"
| "flat (c # cs) = fst c # snd c # flat cs"

text \<open>The body that \<^verbatim>\<open>reset\<close> places.\<close>

definition start_body :: "Point list" where
  "start_body = [(3, 4), (2, 4), (1, 4)]"

text \<open>The state after \<^verbatim>\<open>begin()\<close> when the first apple is drawn at \<open>(4, 4)\<close>, right in
  front of the head, and the state after the step that eats it (the next apple is drawn at
  \<open>(0, 0)\<close>).\<close>

definition fresh :: SnakeGame where
  "fresh = the (reset 0 (power_on (flat [(4, 4), (0, 0)] @- sconst 0)))"

definition fed_once :: SnakeGame where
  "fed_once = the (update 300 (setPending RIGHT fresh))"

text \<open>Eighteen apples in a row: the directions, and the cells of the nineteen apples drawn.\<close>

definition diet_dirs :: "Dir list" where
  "diet_dirs =
    [DOWN, RIGHT, RIGHT, RIGHT, RIGHT, DOWN, DOWN, LEFT, UP, LEFT, DOWN, LEFT, UP, LEFT,
     DOWN, LEFT, UP, UP]"

definition diet_cells :: "Point list" where
  "diet_cells =
    [(3, 5), (4, 5), (5, 5), (6, 5), (7, 5), (7, 6), (7, 7), (6, 7), (6, 6), (5, 6),
     (5, 7), (4, 7), (4, 6), (3, 6), (3, 7), (2, 7), (2, 6), (2, 5), (1, 5)]"

definition starved :: SnakeGame where
  "starved = the (run (Reset 0 # feed 0 diet_dirs) (power_on (flat diet_cells @- sconst 0)))"

text \<open>Sixty apples in a row, along a path that visits every cell not covered at the
  start and ends next to the last free cell \<open>(6, 0)\<close>, where the sixty-first apple is
  drawn.\<close>

definition tour_dirs :: "Dir list" where
  "tour_dirs =
    [DOWN, RIGHT, RIGHT, RIGHT, RIGHT, DOWN, DOWN, LEFT, UP, LEFT, DOWN, LEFT, UP, LEFT,
     DOWN, LEFT, UP, UP, LEFT, DOWN, DOWN, LEFT, UP, UP, UP, UP, UP, UP, UP, RIGHT, DOWN,
     DOWN, DOWN, RIGHT, UP, UP, UP, RIGHT, DOWN, DOWN, DOWN, RIGHT, DOWN, RIGHT, RIGHT,
     RIGHT, UP, LEFT, LEFT, UP, LEFT, UP, UP, RIGHT, DOWN, RIGHT, DOWN, RIGHT, UP, UP]"

definition tour_cells :: "Point list" where
  "tour_cells =
    [(3, 5), (4, 5), (5, 5), (6, 5), (7, 5), (7, 6), (7, 7), (6, 7), (6, 6), (5, 6),
     (5, 7), (4, 7), (4, 6), (3, 6), (3, 7), (2, 7), (2, 6), (2, 5), (1, 5), (1, 6),
     (1, 7), (0, 7), (0, 6), (0, 5), (0, 4), (0, 3), (0, 2), (0, 1), (0, 0), (1, 0),
     (1, 1), (1, 2), (1, 3), (2, 3), (2, 2), (2, 1), (2, 0), (3, 0), (3, 1), (3, 2),
     (3, 3), (4, 3), (4, 4), (5, 4), (6, 4), (7, 4), (7, 3), (6, 3), (5, 3), (5, 2),
     (4, 2), (4, 1), (4, 0), (5, 0), (5, 1), (6, 1), (6, 2), (7, 2), (7, 1), (7, 0), (6, 0)]"

definition gorged :: SnakeGame where
  "gorged = the (run (Reset 0 # feed 0 tour_dirs) (power_on (flat tour_cells @- sconst 0)))"


text \<open>A snake of four cells turning in a square: the cell ahead of the head is the tail.\<close>

definition chaser :: SnakeGame where
  "chaser =
     (power_on (sconst 0))
       \<lparr>snake := [(1, 1), (1, 2), (2, 2), (2, 1)] @ replicate 60 (0, 0), len := 4,
        apple := (5, 5), dir := UP, pending := RIGHT\<rparr>"

section \<open>A quiet sensor\<close>


text \<open>The delta of a reading against the offset, and one smoothing of a value with a
  delta, as \<open>readDir\<close> computes them.\<close>

definition delta :: "float_arith \<Rightarrow> real \<Rightarrow> real \<Rightarrow> real" where
  "delta fa acc off = fsub fa (fdiv fa acc 1000) off"




definition quiet ::
  "float_arith \<Rightarrow> real set \<Rightarrow> InputICM20948 \<Rightarrow> (real \<times> real \<times> Dir) list \<Rightarrow> bool" where
  "quiet fa S st samples \<longleftrightarrow>
     (\<forall>(accX, accY, current) \<in> set samples.
        delta fa accX (ax0 st) \<in> S \<and> \<bar>delta fa accX (ax0 st)\<bar> < DEAD_G \<and>
        delta fa accY (ay0 st) \<in> S \<and> \<bar>delta fa accY (ay0 st)\<bar> < DEAD_G)"

section \<open>Facts about the parts\<close>

lemma scan_snake_iff:
  "scan_snake sn n i x y \<longleftrightarrow> (\<exists>j. i \<le> j \<and> j < n \<and> sn ! j = (x, y))"
proof (induction sn n i x y rule: scan_snake.induct)
  case (1 sn n i x y)
  show ?case
  proof (cases "i < n")
    case False
    then show ?thesis by (subst scan_snake.simps) auto
  next
    case True
    show ?thesis
    proof (cases "sn ! i = (x, y)")
      case hit: True
      then show ?thesis using True by (subst scan_snake.simps) auto
    next
      case miss: False
      then have "scan_snake sn n i x y = scan_snake sn n (i + 1) x y"
        using True by (subst scan_snake.simps) (auto simp: prod_eq_iff)
      also have "\<dots> \<longleftrightarrow> (\<exists>j. i + 1 \<le> j \<and> j < n \<and> sn ! j = (x, y))"
        using 1 True miss by (auto simp: prod_eq_iff)
      also have "\<dots> \<longleftrightarrow> (\<exists>j. i \<le> j \<and> j < n \<and> sn ! j = (x, y))"
        using miss by (metis Suc_eq_plus1 Suc_leD Suc_leI le_neq_implies_less)
      finally show ?thesis .
    qed
  qed
qed

lemma snakeHas_iff:
  "len g \<le> length (snake g) \<Longrightarrow> snakeHas g x y \<longleftrightarrow> (x, y) \<in> set (body g)"
  by (auto simp: snakeHas_def scan_snake_iff body_def in_set_conv_nth)

lemma snakeHasExceptTail_iff:
  "len g \<le> length (snake g) \<Longrightarrow>
     snakeHasExceptTail g x y \<longleftrightarrow> (x, y) \<in> set (take (len g - 1) (snake g))"
  by (auto simp: snakeHasExceptTail_def scan_snake_iff in_set_conv_nth)

lemma shift_body_eq:
  "n < length sn \<Longrightarrow> shift_body sn n = take 1 sn @ take n sn @ drop (Suc n) sn"
proof (induction n arbitrary: sn)
  case 0
  then show ?case by (cases sn) auto
next
  case (Suc n)
  let ?sn = "sn[Suc n := sn ! n]"
  have d: "drop (Suc n) ?sn = (sn ! n) # drop (Suc (Suc n)) sn"
    using Suc.prems by (simp add: drop_update_swap Cons_nth_drop_Suc [symmetric])
  have "shift_body sn (Suc n) = shift_body ?sn n" by simp
  also have "\<dots> = take 1 ?sn @ take n ?sn @ drop (Suc n) ?sn"
    using Suc by simp
  also have "\<dots> = take 1 sn @ take n sn @ (sn ! n) # drop (Suc (Suc n)) sn"
    unfolding d by simp
  also have "\<dots> = take 1 sn @ take (Suc n) sn @ drop (Suc (Suc n)) sn"
    using Suc.prems by (simp add: take_Suc_conv_app_nth)
  finally show ?case .
qed

lemma snakeHas_frame [simp]:
  "snakeHas (g\<lparr>rnd := r\<rparr>) = snakeHas g"
  "snakeHas (g\<lparr>apple := a\<rparr>) = snakeHas g"
  "snakeHas (g\<lparr>sfx := e\<rparr>) = snakeHas g"
  "snakeHas (g\<lparr>dir := d\<rparr>) = snakeHas g"
  "snakeHas (g\<lparr>lastStep := t\<rparr>) = snakeHas g"
  by (auto simp: snakeHas_def fun_eq_iff)

lemma spawnApple_frame:
  assumes "spawnApple g = Some g'"
  shows "\<exists>r a. g' = g\<lparr>rnd := r, apple := a\<rparr>"
proof (rule spawnApple.raw_induct
    [where P = "\<lambda>g g'. \<exists>r a. g' = g\<lparr>rnd := r, apple := a\<rparr>", OF _ assms], goal_cases)
  case (1 sp h h')
  show ?case
  proof (cases "snakeHas (h\<lparr>rnd := stl (stl (rnd h))\<rparr>) (shd (rnd h)) (shd (stl (rnd h)))")
    case True
    with 1(2) have "sp (h\<lparr>rnd := stl (stl (rnd h))\<rparr>) = Some h'" by (simp add: Let_def)
    from 1(1) [OF this] show ?thesis by auto
  next
    case False
    with 1(2) show ?thesis by (auto simp: Let_def)
  qed
qed

lemma resolve_dir_fields [simp]:
  "snake (resolve_dir g) = snake g" "len (resolve_dir g) = len g"
  "apple (resolve_dir g) = apple g" "stepMs (resolve_dir g) = stepMs g"
  "lastStep (resolve_dir g) = lastStep g" "gameOverFlag (resolve_dir g) = gameOverFlag g"
  "pending (resolve_dir g) = pending g" "rnd (resolve_dir g) = rnd g"
  "matrix (resolve_dir g) = matrix g" "sfx (resolve_dir g) = sfx g"
  by (simp_all add: resolve_dir_def)

lemma resolve_dir_tests [simp]:
  "ate (resolve_dir g) p = ate g p"
  "snakeHas (resolve_dir g) x y = snakeHas g x y"
  "snakeHasExceptTail (resolve_dir g) x y = snakeHasExceptTail g x y"
  by (simp_all add: ate_def snakeHas_def snakeHasExceptTail_def)

lemma step_unfold:
  "step g =
     (if crashes g then Some (triggerGameOver (resolve_dir g))
      else if ate g (next_cell g)
        then Option.bind (spawnApple ((advance g)\<lparr>sfx := eatApple (sfx g)\<rparr>)) (\<lambda>g3. Some (speed_up g3))
        else Some (advance g))"
  by (auto simp: step_def crashes_def next_cell_def advance_def speed_up_def Let_def)

lemma advance_fields [simp]:
  "apple (advance g) = apple g" "stepMs (advance g) = stepMs g"
  "lastStep (advance g) = lastStep g" "gameOverFlag (advance g) = gameOverFlag g"
  "pending (advance g) = pending g" "rnd (advance g) = rnd g"
  "matrix (advance g) = matrix g" "sfx (advance g) = sfx g"
  "dir (advance g) = dir (resolve_dir g)"
  by (simp_all add: advance_def Let_def)

lemma len_advance:
  "len g \<le> 64 \<Longrightarrow>
   len (advance g) = (if ate g (next_cell g) \<and> len g < 64 then len g + 1 else len g)"
  by (simp add: advance_def Let_def)

lemma length_snake_advance [simp]: "length (snake (advance g)) = length (snake g)"
proof -
  have "length (shift_body sn n) = length sn" for sn :: "Point list" and n
    by (induction n arbitrary: sn) auto
  then show ?thesis by (simp add: advance_def Let_def)
qed

lemma body_advance:
  assumes "length (snake g) = 64" "1 \<le> len g" "len g \<le> 64"
  shows "body (advance g) = next_cell g # take (len (advance g) - 1) (body g)"
proof -
  let ?n = "len (advance g)"
  have n: "1 \<le> ?n" "?n \<le> 64" "?n - 1 \<le> len g"
    using assms by (auto simp: len_advance)
  have sn: "snake (advance g) = (shift_body (snake g) (?n - 1))[0 := next_cell g]"
    by (simp add: advance_def Let_def)
  have "shift_body (snake g) (?n - 1) =
          take 1 (snake g) @ take (?n - 1) (snake g) @ drop (Suc (?n - 1)) (snake g)"
    using n assms by (intro shift_body_eq) simp
  moreover obtain p ps where ps: "snake g = p # ps"
    using assms(1) by (cases "snake g") auto
  ultimately have "snake (advance g) = next_cell g # take (?n - 1) (snake g) @ drop ?n (snake g)"
    using n sn by simp
  then have "body (advance g) = next_cell g # take (?n - 1) (take (?n - 1) (snake g) @ drop ?n (snake g))"
    using n by (cases ?n) (simp_all add: body_def)
  also have "take (?n - 1) (take (?n - 1) (snake g) @ drop ?n (snake g)) = take (?n - 1) (snake g)"
    using n assms by simp
  also have "take (?n - 1) (snake g) = take (?n - 1) (body g)"
    using n by (simp add: body_def min_def)
  finally show ?thesis .
qed

lemma speed_up_fields [simp]:
  "snake (speed_up g) = snake g" "len (speed_up g) = len g"
  "apple (speed_up g) = apple g" "dir (speed_up g) = dir g"
  "lastStep (speed_up g) = lastStep g" "gameOverFlag (speed_up g) = gameOverFlag g"
  "pending (speed_up g) = pending g" "rnd (speed_up g) = rnd g"
  "matrix (speed_up g) = matrix g" "sfx (speed_up g) = sfx g"
  by (simp_all add: speed_up_def)

lemma triggerGameOver_fields [simp]:
  "snake (triggerGameOver g) = snake g" "len (triggerGameOver g) = len g"
  "apple (triggerGameOver g) = apple g" "dir (triggerGameOver g) = dir g"
  "lastStep (triggerGameOver g) = lastStep g" "gameOverFlag (triggerGameOver g)"
  "pending (triggerGameOver g) = pending g" "rnd (triggerGameOver g) = rnd g"
  "stepMs (triggerGameOver g) = stepMs g"
  by (simp_all add: triggerGameOver_def)

lemma draw_fields [simp]:
  "snake (draw g) = snake g" "len (draw g) = len g"
  "apple (draw g) = apple g" "dir (draw g) = dir g"
  "lastStep (draw g) = lastStep g" "gameOverFlag (draw g) = gameOverFlag g"
  "pending (draw g) = pending g" "rnd (draw g) = rnd g"
  "stepMs (draw g) = stepMs g" "sfx (draw g) = sfx g"
  by (simp_all add: draw_def)

lemma body_simps [simp]:
  "body (resolve_dir g) = body g" "body (speed_up g) = body g"
  "body (triggerGameOver g) = body g" "body (draw g) = body g"
  "body (g\<lparr>rnd := r\<rparr>) = body g" "body (g\<lparr>apple := a\<rparr>) = body g"
  "body (g\<lparr>sfx := e\<rparr>) = body g" "body (g\<lparr>lastStep := t\<rparr>) = body g"
  "body (g\<lparr>pending := d\<rparr>) = body g" "body (g\<lparr>matrix := m\<rparr>) = body g"
  by (simp_all add: body_def)

lemma crashes_iff:
  assumes "shaped g"
  shows "crashes g \<longleftrightarrow>
     outside (next_cell g) \<or>
     (if next_cell g = apple g then next_cell g \<in> set (body g)
      else next_cell g \<in> set (take (len g - 1) (snake g)))"
proof -
  have l: "len g \<le> length (snake g)" using assms by (simp add: shaped_def)
  have a: "ate g (next_cell g) \<longleftrightarrow> next_cell g = apple g"
    by (auto simp: ate_def prod_eq_iff)
  show ?thesis
    unfolding crashes_def a
    using snakeHas_iff [OF l, of "fst (next_cell g)" "snd (next_cell g)"]
      snakeHasExceptTail_iff [OF l, of "fst (next_cell g)" "snd (next_cell g)"]
    by auto
qed

lemma shaped_advance:
  assumes "shaped g" "\<not> crashes g"
  shows "shaped (advance g)"
proof -
  have g: "length (snake g) = 64" "1 \<le> len g" "len g \<le> 64"
    and inb: "\<forall>p \<in> set (body g). \<not> outside p" and dist: "distinct (body g)"
    using assms(1) by (auto simp: shaped_def)
  let ?n = "len (advance g)"
  have b: "body (advance g) = next_cell g # take (?n - 1) (body g)"
    by (rule body_advance [OF g])
  have nx: "\<not> outside (next_cell g)"
    using assms by (simp add: crashes_iff)
  have fresh: "next_cell g \<notin> set (take (?n - 1) (body g))"
  proof (cases "next_cell g = apple g")
    case True
    then have "next_cell g \<notin> set (body g)" using assms by (simp add: crashes_iff)
    then show ?thesis by (meson in_set_takeD)
  next
    case False
    then have "\<not> ate g (next_cell g)" by (auto simp: ate_def prod_eq_iff)
    then have "?n = len g" using g by (simp add: len_advance)
    moreover have "next_cell g \<notin> set (take (len g - 1) (snake g))"
      using assms False by (simp add: crashes_iff)
    moreover have "take (len g - 1) (body g) = take (len g - 1) (snake g)"
      by (simp add: body_def min_def)
    ultimately show ?thesis by simp
  qed
  have "set (take (?n - 1) (body g)) \<subseteq> set (body g)" by (rule set_take_subset)
  with inb nx have "\<forall>p \<in> set (body (advance g)). \<not> outside p"
    unfolding b by auto
  moreover have "distinct (body (advance g))"
    unfolding b using fresh dist by simp
  moreover have "1 \<le> ?n" "?n \<le> 64" using g by (auto simp: len_advance)
  ultimately show ?thesis using g by (simp add: shaped_def)
qed

lemma shaped_frame [simp]:
  "shaped (resolve_dir g) = shaped g" "shaped (speed_up g) = shaped g"
  "shaped (triggerGameOver g) = shaped g" "shaped (draw g) = shaped g"
  "shaped (g\<lparr>rnd := r\<rparr>) = shaped g" "shaped (g\<lparr>apple := a\<rparr>) = shaped g"
  "shaped (g\<lparr>sfx := e\<rparr>) = shaped g" "shaped (g\<lparr>lastStep := t\<rparr>) = shaped g"
  "shaped (g\<lparr>pending := d\<rparr>) = shaped g" "shaped (g\<lparr>matrix := m\<rparr>) = shaped g"
  by (simp_all add: shaped_def)

lemma shaped_step:
  assumes "shaped g" "step g = Some g'"
  shows "shaped g'"
proof (cases "crashes g")
  case True
  with assms show ?thesis by (auto simp: step_unfold)
next
  case False
  note adv = shaped_advance [OF assms(1) False]
  show ?thesis
  proof (cases "ate g (next_cell g)")
    case True
    with False assms(2) obtain g3
      where g3: "spawnApple ((advance g)\<lparr>sfx := eatApple (sfx g)\<rparr>) = Some g3"
        and g': "g' = speed_up g3"
      by (auto simp: step_unfold split: bind_splits)
    from spawnApple_frame [OF g3] adv have "shaped g3" by auto
    then show ?thesis by (simp add: g')
  next
    case nonate: False
    with False assms(2) adv show ?thesis by (auto simp: step_unfold)
  qed
qed

lemma shaped_update:
  assumes "shaped g" "update now g = Some g'"
  shows "shaped g'"
proof -
  consider "gameOverFlag g" | "\<not> gameOverFlag g" "\<not> due now g" | "\<not> gameOverFlag g" "due now g"
    by blast
  then show ?thesis
  proof cases
    case 1
    with assms show ?thesis by (auto simp: update_def)
  next
    case 2
    with assms show ?thesis by (auto simp: update_def)
  next
    case 3
    with assms(2) obtain g1 where "step (g\<lparr>lastStep := now\<rparr>) = Some g1" "g' = draw g1"
      by (auto simp: update_def split: bind_splits)
    with shaped_step [of "g\<lparr>lastStep := now\<rparr>" g1] assms(1) show ?thesis by simp
  qed
qed

lemma take3_update: "3 \<le> length xs \<Longrightarrow> take 3 (xs[0 := a, 1 := b, 2 := c]) = [a, b, c]"
proof (cases xs)
  case (Cons x ys)
  assume l: "3 \<le> length xs"
  show ?thesis
  proof (cases ys)
    case ys: (Cons y zs)
    show ?thesis
    proof (cases zs)
      case (Cons z r)
      then show ?thesis using \<open>xs = x # ys\<close> ys by (simp add: numeral_3_eq_3 numeral_2_eq_2)
    qed (use l \<open>xs = x # ys\<close> ys in simp)
  qed (use l Cons in simp)
qed simp

lemma shaped_reset:
  assumes "length (snake g) = 64" "reset now g = Some g'"
  shows "shaped g'"
proof -
  let ?g0 = "g\<lparr>gameOverFlag := False, dir := RIGHT, pending := RIGHT, stepMs := 300,
             lastStep := now, len := 3,
             snake := (snake g)[0 := (3, 4), 1 := (2, 4), 2 := (1, 4)]\<rparr>"
  from assms(2) obtain g1 where g1: "spawnApple ?g0 = Some g1" and g': "g' = draw g1"
    by (auto simp: reset_def split: bind_splits)
  have "take 3 ((snake g)[0 := (3, 4), 1 := (2, 4), 2 := (1, 4)]) = [(3, 4), (2, 4), (1, 4)]"
    by (rule take3_update) (simp add: assms(1))
  then have b: "body ?g0 = [(3, 4), (2, 4), (1, 4)]"
    by (simp add: body_def)
  have "shaped ?g0"
    unfolding shaped_def b using assms(1) by (simp add: outside_def)
  with spawnApple_frame [OF g1] show ?thesis by (auto simp: g')
qed

lemma reachable_shaped: "reachable g \<Longrightarrow> shaped g"
proof (induction rule: reachable.induct)
  case (boot rs now g)
  then show ?case by (intro shaped_reset [of "power_on rs" now]) (simp_all add: power_on_def)
next
  case (again g now g')
  then show ?case by (intro shaped_reset [of g now]) (simp_all add: shaped_def)
next
  case (heading g d)
  then show ?case by (simp add: setPending_def)
next
  case (tick g now g')
  then show ?case using shaped_update by blast
qed

section \<open>A step that eats, and runs of such steps\<close>

lemma int8_t_id: "- 128 \<le> v \<Longrightarrow> v \<le> 127 \<Longrightarrow> int8_t v = v"
  by (simp add: int8_t_def)

lemma head_body: "shaped g \<Longrightarrow> snake g ! 0 = hd (body g)"
  by (cases "snake g") (auto simp: shaped_def body_def take_Suc hd_take)

lemma head_in_grid:
  assumes "shaped g"
  shows "\<not> outside (hd (body g))"
proof -
  have "body g \<noteq> []" using assms by (auto simp: shaped_def body_def)
  then have "hd (body g) \<in> set (body g)" by simp
  then show ?thesis using assms by (auto simp: shaped_def)
qed

lemma next_cell_ahead:
  assumes "shaped g" "\<not> opposite (dir g) (pending g)"
  shows "next_cell g = ahead (pending g) (hd (body g))"
proof -
  obtain x y where h: "hd (body g) = (x, y)" by (cases "hd (body g)")
  with head_in_grid [OF assms(1)] have r: "0 \<le> x" "x < 8" "0 \<le> y" "y < 8"
    by (auto simp: outside_def)
  have s: "snake g ! 0 = (x, y)" using head_body [OF assms(1)] h by simp
  show ?thesis
    using assms(2) r
    by (cases "pending g") (simp_all add: next_cell_def resolve_dir_def next_point_def s h int8_t_id)
qed

lemma spawn_hit:
  "\<not> snakeHas g (shd (rnd g)) (shd (stl (rnd g))) \<Longrightarrow>
   spawnApple g = Some (g\<lparr>rnd := stl (stl (rnd g)),
                          apple := (int8_t (shd (rnd g)), int8_t (shd (stl (rnd g))))\<rparr>)"
  by (subst spawnApple.simps) (simp add: Let_def)

lemma spawn_full:
  assumes "grid_full g" "sset (rnd g) \<subseteq> {0..7}"
  shows "spawnApple g = None"
proof (rule ccontr)
  assume "spawnApple g \<noteq> None"
  then obtain g' where g': "spawnApple g = Some g'" by auto
  have "\<not> (grid_full g \<and> sset (rnd g) \<subseteq> {0..7})"
  proof (rule spawnApple.raw_induct
      [where P = "\<lambda>g g'. \<not> (grid_full g \<and> sset (rnd g) \<subseteq> {0..7})", OF _ g'], goal_cases)
    case (1 sp h h')
    show ?case
    proof
      assume a: "grid_full h \<and> sset (rnd h) \<subseteq> {0..7}"
      let ?h = "h\<lparr>rnd := stl (stl (rnd h))\<rparr>"
      have "shd (rnd h) \<in> sset (rnd h)" "shd (stl (rnd h)) \<in> sset (rnd h)"
        by (simp_all add: shd_sset stl_sset)
      with a have "snakeHas ?h (shd (rnd h)) (shd (stl (rnd h)))"
        by (auto simp: grid_full_def)
      with 1(2) have "sp ?h = Some h'" by (simp add: Let_def)
      from 1(1) [OF this] have "\<not> (grid_full ?h \<and> sset (rnd ?h) \<subseteq> {0..7})" .
      moreover have "grid_full ?h" using a by (simp add: grid_full_def)
      moreover have "sset (rnd ?h) \<subseteq> {0..7}"
        using a by (auto dest: stl_sset)
      ultimately show False by simp
    qed
  qed
  with assms show False by simp
qed

lemma stepMs_speed_up: "stepMs (speed_up g) = speed (stepMs g)"
  by (simp add: speed_up_def speed_def)

lemma speed_le: "speed v \<le> v"
  by (auto simp: speed_def word_le_nat_alt word_less_nat_alt unat_sub)

lemma bitten_fields [simp]:
  "lastStep (bitten d now g) = now" "gameOverFlag (bitten d now g) = gameOverFlag g"
  "stepMs (bitten d now g) = stepMs g" "rnd (bitten d now g) = rnd g"
  "apple (bitten d now g) = apple g"
  by (simp_all add: bitten_def)

lemma eat_update:
  assumes sh: "shaped g" and run: "\<not> gameOverFlag g" and turn: "\<not> opposite (dir g) d"
    and due: "due now g"
    and ap: "apple g = ahead d (hd (body g))" "\<not> outside (apple g)" "apple g \<notin> set (body g)"
  shows "update now (setPending d g) =
           Option.bind (spawnApple (bitten d now g)) (\<lambda>g3. Some (draw (speed_up g3)))"
    and "shaped (bitten d now g)"
    and "len g < 64 \<Longrightarrow> body (bitten d now g) = apple g # body g"
    and "len g < 64 \<Longrightarrow> len (bitten d now g) = len g + 1"
proof -
  let ?h = "g\<lparr>pending := d, lastStep := now\<rparr>"
  have shh: "shaped ?h" using sh by simp
  have nc: "next_cell ?h = apple g"
    using next_cell_ahead [OF shh] turn ap(1) by simp
  have nocrash: "\<not> crashes ?h"
    using ap nc by (simp add: crashes_iff [OF shh])
  have a: "ate ?h (next_cell ?h)" by (simp add: nc ate_def)
  have "step ?h = Option.bind (spawnApple (bitten d now g)) (\<lambda>g3. Some (speed_up g3))"
    using nocrash a by (simp add: step_unfold bitten_def)
  moreover have "update now (setPending d g) = Option.bind (step ?h) (\<lambda>g'. Some (draw g'))"
    using run due by (simp add: update_def setPending_def due_def)
  ultimately show "update now (setPending d g) =
           Option.bind (spawnApple (bitten d now g)) (\<lambda>g3. Some (draw (speed_up g3)))"
    by (cases "spawnApple (bitten d now g)") simp_all
  have sha: "shaped (advance ?h)" by (rule shaped_advance [OF shh nocrash])
  then show "shaped (bitten d now g)" by (simp add: bitten_def)
  have l: "len ?h \<le> 64" "length (snake ?h) = 64" "1 \<le> len ?h"
    using sh by (auto simp: shaped_def)
  {
    assume lt: "len g < 64"
    then have n: "len (advance ?h) = len g + 1"
      using len_advance [OF l(1)] a by simp
    then show "len (bitten d now g) = len g + 1" by (simp add: bitten_def)
    have "body (advance ?h) = next_cell ?h # take (len (advance ?h) - 1) (body ?h)"
      by (rule body_advance [OF l(2) l(3) l(1)])
    then show "body (bitten d now g) = apple g # body g"
      by (simp add: bitten_def n nc body_def)
  }
qed

lemma follow:
  assumes "shaped g" "\<not> gameOverFlag g" "stepMs g \<le> 300"
    and "len g + length ds < 64"
    and "no_reverse (dir g) ds"
    and "trail (hd (body g)) ds = butlast as" "as \<noteq> []"
    and "distinct (rev as @ body g)"
    and "\<forall>c \<in> set as. \<not> outside c"
    and "apple g = hd as" "rnd g = flat (tl as) @- s"
  shows "\<exists>g'. run (feed (lastStep g) ds) g = Some g' \<and>
           body g' = rev (butlast as) @ body g \<and> apple g' = last as \<and> rnd g' = s \<and>
           dir g' = last (dir g # ds) \<and>
           lastStep g' = lastStep g + 300 * of_nat (length ds) \<and>
           stepMs g' = (speed ^^ length ds) (stepMs g) \<and>
           len g' = len g + length ds \<and> \<not> gameOverFlag g' \<and> shaped g'"
  using assms
proof (induction ds arbitrary: g as)
  case Nil
  then have "butlast as = []" by simp
  with Nil(7) have "as = [last as]" by (metis append_butlast_last_id append_Nil)
  then have "hd as = last as" "tl as = []" by (metis list.sel(1), metis list.sel(3))
  with Nil show ?case by simp
next
  case (Cons d ds)
  let ?now = "lastStep g + 300"
  from Cons.prems(6) obtain c as' where as: "as = c # as'" and c: "c = ahead d (hd (body g))"
    and as': "as' \<noteq> []" and tr: "trail c ds = butlast as'"
    by (cases as) (auto split: if_splits)
  obtain x y where xy: "hd as' = (x, y)" by (cases "hd as'")
  have hdin: "hd as' \<in> set as'" using as' by simp
  have rng: "0 \<le> x" "x < 8" "0 \<le> y" "y < 8"
    using Cons.prems(9) hdin xy by (auto simp: as outside_def)
  let ?G = "bitten d ?now g"
  have due: "due ?now g"
    using Cons.prems(3) by (simp add: due_def)
  have ap: "apple g = ahead d (hd (body g))" "\<not> outside (apple g)" "apple g \<notin> set (body g)"
    using Cons.prems(8,9,10) by (auto simp: as c)
  have turn: "\<not> opposite (dir g) d" using Cons.prems(5) by simp
  have lt: "len g < 64" using Cons.prems(4) by simp
  note eu = eat_update [OF Cons.prems(1) Cons.prems(2) turn due ap]
  have bG: "body ?G = c # body g" using eu(3) [OF lt] Cons.prems(10) by (simp add: as)
  have lG: "len ?G = len g + 1" by (rule eu(4) [OF lt])
  have rg: "rnd g = x ## y ## (flat (tl as') @- s)"
    using Cons.prems(11) as' xy by (cases as') (auto simp: as)
  have "len ?G \<le> length (snake ?G)" using eu(2) by (simp add: shaped_def)
  from snakeHas_iff [OF this, of x y]
  have "\<not> snakeHas ?G x y"
    using Cons.prems(8) hdin xy by (auto simp: bG as)
  then have free: "\<not> snakeHas ?G (shd (rnd ?G)) (shd (stl (rnd ?G)))"
    by (simp add: rg)
  let ?g1 = "draw (speed_up (?G\<lparr>rnd := flat (tl as') @- s, apple := (x, y)\<rparr>))"
  have up: "update ?now (setPending d g) = Some ?g1"
    unfolding eu(1) spawn_hit [OF free] using rng by (simp add: rg int8_t_id)
  have p1: "shaped ?g1" using eu(2) by simp
  have p2: "\<not> gameOverFlag ?g1" using Cons.prems(2) by (simp add: bitten_def)
  have "stepMs ?g1 = speed (stepMs g)" by (simp add: stepMs_speed_up bitten_def)
  then have p3: "stepMs ?g1 \<le> 300" "stepMs ?g1 = speed (stepMs g)"
    using Cons.prems(3) speed_le [of "stepMs g"] by auto
  have p4: "len ?g1 + length ds < 64" using Cons.prems(4) lG by simp
  have d1: "dir ?g1 = d" using turn by (simp add: bitten_def resolve_dir_def)
  have p5: "no_reverse (dir ?g1) ds" using Cons.prems(5) d1 by simp
  have b1: "body ?g1 = c # body g" using bG by simp
  have p6: "trail (hd (body ?g1)) ds = butlast as'" using tr b1 by simp
  have p8: "distinct (rev as' @ body ?g1)" using Cons.prems(8) by (simp add: bG as)
  have p9: "\<forall>c \<in> set as'. \<not> outside c" using Cons.prems(9) by (simp add: as)
  have p10: "apple ?g1 = hd as'" by (simp add: xy)
  have p11: "rnd ?g1 = flat (tl as') @- s" by simp
  have t1: "lastStep ?g1 = ?now" by (simp add: bitten_def)
  from Cons.IH [OF p1 p2 p3(1) p4 p5 p6 as' p8 p9 p10 p11]
  obtain g' where g': "run (feed (lastStep ?g1) ds) ?g1 = Some g'"
    "body g' = rev (butlast as') @ body ?g1" "apple g' = last as'" "rnd g' = s"
    "dir g' = last (dir ?g1 # ds)"
    "lastStep g' = lastStep ?g1 + 300 * of_nat (length ds)"
    "stepMs g' = (speed ^^ length ds) (stepMs ?g1)"
    "len g' = len ?g1 + length ds" "\<not> gameOverFlag g'" "shaped g'"
    by blast
  have "run (feed (lastStep g) (d # ds)) g = Some g'"
    using g'(1) up by (simp add: t1)
  moreover have "body g' = rev (butlast as) @ body g"
    using g'(2) as' by (simp add: bG as)
  moreover have "apple g' = last as" using g'(3) as' by (simp add: as)
  moreover have "dir g' = last (dir g # d # ds)" using g'(5) d1 by simp
  moreover have "lastStep g' = lastStep g + 300 * of_nat (length (d # ds))"
    using g'(6) by (simp add: t1 algebra_simps)
  moreover have "stepMs g' = (speed ^^ length (d # ds)) (stepMs g)"
    using g'(7) p3(2) by (simp add: funpow_swap1)
  moreover have "len g' = len g + length (d # ds)" using g'(8) lG by simp
  ultimately show ?case using g'(4,9,10) by blast
qed


lemma run_append: "run (cs @ cs') g = Option.bind (run cs g) (run cs')"
  by (induction cs arbitrary: g) (auto split: bind_splits)

lemma run_reachable: "reachable g \<Longrightarrow> run cs g = Some g' \<Longrightarrow> reachable g'"
proof (induction cs arbitrary: g)
  case Nil
  then show ?case by simp
next
  case (Cons c cs)
  from Cons.prems(2) obtain g1 where g1: "exec c g = Some g1" "run cs g1 = Some g'"
    by (auto split: bind_splits)
  have "reachable g1"
    using g1(1) Cons.prems(1) by (cases c) (auto intro: reachable.intros)
  then show ?case using g1(2) by (rule Cons.IH)
qed

lemma boot_run_reachable:
  assumes "sset rs \<subseteq> {0..7}" "run (Reset t # cs) (power_on rs) = Some g"
  shows "reachable g"
proof -
  from assms(2) obtain g0 where g0: "reset t (power_on rs) = Some g0" "run cs g0 = Some g"
    by (auto split: bind_splits)
  from reachable.boot [OF assms(1) g0(1)] g0(2) show ?thesis by (rule run_reachable)
qed

lemma reset_body:
  assumes "length (snake g) = 64"
  shows "body (g\<lparr>gameOverFlag := False, dir := RIGHT, pending := RIGHT, stepMs := 300,
             lastStep := now, len := 3,
             snake := (snake g)[0 := (3, 4), 1 := (2, 4), 2 := (1, 4)]\<rparr>) = start_body"
proof -
  have "take 3 ((snake g)[0 := (3, 4), 1 := (2, 4), 2 := (1, 4)]) = [(3, 4), (2, 4), (1, 4)]"
    by (rule take3_update) (simp add: assms)
  then show ?thesis by (simp add: body_def start_body_def)
qed

lemma boot_state:
  assumes "\<not> outside a" "a \<notin> set start_body" "length (snake g) = 64"
    and "rnd g = fst a ## snd a ## s"
  shows "\<exists>g'. reset now g = Some g' \<and> body g' = start_body \<and> apple g' = a \<and>
           rnd g' = s \<and> dir g' = RIGHT \<and> lastStep g' = now \<and> stepMs g' = 300 \<and> len g' = 3 \<and>
           \<not> gameOverFlag g' \<and> shaped g'"
proof -
  let ?g0 = "g\<lparr>gameOverFlag := False, dir := RIGHT, pending := RIGHT, stepMs := 300,
             lastStep := now, len := 3,
             snake := (snake g)[0 := (3, 4), 1 := (2, 4), 2 := (1, 4)]\<rparr>"
  have b: "body ?g0 = start_body" by (rule reset_body [OF assms(3)])
  have sh: "shaped ?g0"
    unfolding shaped_def b using assms(3) by (simp add: outside_def start_body_def)
  then have "len ?g0 \<le> length (snake ?g0)" by (simp add: shaped_def)
  from snakeHas_iff [OF this, of "fst a" "snd a"] assms(2)
  have "\<not> snakeHas ?g0 (shd (rnd ?g0)) (shd (stl (rnd ?g0)))"
    unfolding b by (simp add: assms(4))
  from spawn_hit [OF this] have sp: "spawnApple ?g0 = Some (?g0\<lparr>rnd := s, apple := a\<rparr>)"
    using assms(1) by (simp add: assms(4) int8_t_id outside_def)
  have "reset now g = Some (draw (?g0\<lparr>rnd := s, apple := a\<rparr>))"
    unfolding reset_def sp by simp
  moreover have "body (draw (?g0\<lparr>rnd := s, apple := a\<rparr>)) = start_body"
    using b by simp
  moreover have "shaped (draw (?g0\<lparr>rnd := s, apple := a\<rparr>))" using sh by simp
  ultimately show ?thesis by simp
qed

lemma feast:
  assumes "3 + length ds < 64" "no_reverse RIGHT ds" "trail (3, 4) ds = butlast as" "as \<noteq> []"
    and "distinct (rev as @ start_body)" "\<forall>c \<in> set as. \<not> outside c"
  shows "\<exists>g'. run (Reset t # feed t ds) (power_on (flat as @- s)) = Some g' \<and>
           body g' = rev (butlast as) @ start_body \<and> apple g' = last as \<and> rnd g' = s \<and>
           dir g' = last (RIGHT # ds) \<and> lastStep g' = t + 300 * of_nat (length ds) \<and>
           stepMs g' = (speed ^^ length ds) 300 \<and> len g' = 3 + length ds \<and>
           \<not> gameOverFlag g' \<and> shaped g'"
proof -
  obtain a as' where as: "as = a # as'" using assms(4) by (cases as) auto
  have r: "rnd (power_on (flat as @- s)) = fst a ## snd a ## (flat (tl as) @- s)"
    by (simp add: power_on_def as)
  have "\<not> outside a" "a \<notin> set start_body" using assms(5,6) by (auto simp: as)
  from boot_state [OF this _ r, of t]
  obtain g where g: "reset t (power_on (flat as @- s)) = Some g" "body g = start_body"
    "apple g = a" "rnd g = flat (tl as) @- s" "dir g = RIGHT" "lastStep g = t" "stepMs g = 300"
    "len g = 3" "\<not> gameOverFlag g" "shaped g"
    by (auto simp: power_on_def)
  have "\<exists>g'. run (feed (lastStep g) ds) g = Some g' \<and>
           body g' = rev (butlast as) @ body g \<and> apple g' = last as \<and> rnd g' = s \<and>
           dir g' = last (dir g # ds) \<and>
           lastStep g' = lastStep g + 300 * of_nat (length ds) \<and>
           stepMs g' = (speed ^^ length ds) (stepMs g) \<and>
           len g' = len g + length ds \<and> \<not> gameOverFlag g' \<and> shaped g'"
    using assms g by (intro follow) (simp_all add: start_body_def as)
  then show ?thesis using g by (auto simp: )
qed

lemma shaped_full:
  assumes "shaped g" "len g = 64"
  shows "grid_full g"
proof -
  let ?G = "{0..7::int} \<times> {0..7::int}"
  have sub: "set (body g) \<subseteq> ?G"
    using assms(1) by (auto simp: shaped_def outside_def)
  have "length (body g) = 64" using assms by (simp add: shaped_def body_def)
  then have "card (set (body g)) = 64"
    using assms(1) by (simp add: shaped_def distinct_card)
  moreover have "card ?G = 64" by simp
  ultimately have "set (body g) = ?G"
    using sub by (intro card_subset_eq) simp_all
  moreover have "len g \<le> length (snake g)" using assms(1) by (simp add: shaped_def)
  ultimately show ?thesis
    by (auto simp: grid_full_def snakeHas_iff)
qed

lemma last_bite_hangs:
  assumes "shaped g" "\<not> gameOverFlag g" "\<not> opposite (dir g) d" "due now g"
    and "apple g = ahead d (hd (body g))" "\<not> outside (apple g)" "apple g \<notin> set (body g)"
    and "len g = 63" "sset (rnd g) \<subseteq> {0..7}"
  shows "update now (setPending d g) = None"
proof -
  note eu = eat_update [OF assms(1-7)]
  have "len (bitten d now g) = 64" using eu(4) assms(8) by simp
  with eu(2) have "grid_full (bitten d now g)" by (rule shaped_full)
  then have "spawnApple (bitten d now g) = None"
    using assms(9) by (intro spawn_full) simp_all
  then show ?thesis by (simp add: eu(1))
qed

section \<open>The two long runs\<close>

lemma diet_trail: "trail (3, 4) diet_dirs = butlast diet_cells"
  by (simp add: diet_dirs_def diet_cells_def)

lemma diet_no_reverse: "no_reverse RIGHT diet_dirs"
  by (simp add: diet_dirs_def opposite_def)

lemma diet_distinct: "distinct (rev diet_cells @ start_body)"
  by (simp add: diet_cells_def start_body_def)

lemma diet_inside: "\<forall>c \<in> set diet_cells. \<not> outside c"
  by (simp add: diet_cells_def outside_def)

lemma diet_length: "length diet_dirs = 18"
  by (simp add: diet_dirs_def)

lemma tour_trail: "trail (3, 4) tour_dirs = butlast tour_cells"
  by (simp add: tour_dirs_def tour_cells_def)

lemma tour_no_reverse: "no_reverse RIGHT tour_dirs"
  by (simp add: tour_dirs_def opposite_def)

lemma tour_distinct: "distinct (rev tour_cells @ start_body)"
  by (simp add: tour_cells_def start_body_def)

lemma tour_inside: "\<forall>c \<in> set tour_cells. \<not> outside c"
  by (simp add: tour_cells_def outside_def)

lemma tour_length: "length tour_dirs = 60"
  by (simp add: tour_dirs_def)

lemma speed_funpow_numeral: "(speed ^^ numeral k) v = (speed ^^ pred_numeral k) (speed v)"
  by (simp add: numeral_eq_Suc funpow_swap1)

lemma flat_in_range: "\<forall>c \<in> set cs. \<not> outside c \<Longrightarrow> set (flat cs) \<subseteq> {0..7}"
  by (induction cs) (auto simp: outside_def)

lemma diet_run:
  "run (Reset 0 # feed 0 diet_dirs) (power_on (flat diet_cells @- sconst 0)) = Some starved \<and>
   stepMs starved = 84 \<and> len starved = 21 \<and> \<not> gameOverFlag starved"
proof -
  have "\<exists>g'. run (Reset 0 # feed 0 diet_dirs) (power_on (flat diet_cells @- sconst 0)) = Some g' \<and>
           body g' = rev (butlast diet_cells) @ start_body \<and> apple g' = last diet_cells \<and>
           rnd g' = sconst 0 \<and> dir g' = last (RIGHT # diet_dirs) \<and>
           lastStep g' = 0 + 300 * of_nat (length diet_dirs) \<and>
           stepMs g' = (speed ^^ length diet_dirs) 300 \<and> len g' = 3 + length diet_dirs \<and>
           \<not> gameOverFlag g' \<and> shaped g'"
    by (rule feast [OF _ diet_no_reverse diet_trail _ diet_distinct diet_inside])
      (simp_all add: diet_length diet_cells_def)
  moreover have "(speed ^^ 18) 300 = 84"
    by (simp add: speed_funpow_numeral speed_def)
  ultimately show ?thesis by (auto simp: starved_def diet_length)
qed

lemma diet_reachable: "reachable starved"
proof -
  have "sset (flat diet_cells @- sconst 0) \<subseteq> {0..7}"
    using flat_in_range [OF diet_inside] by simp
  then show ?thesis using diet_run by (blast intro: boot_run_reachable)
qed

lemma tour_run:
  "run (Reset 0 # feed 0 tour_dirs) (power_on (flat tour_cells @- sconst 0)) = Some gorged \<and>
   body gorged = rev (butlast tour_cells) @ start_body \<and> apple gorged = (6, 0) \<and>
   rnd gorged = sconst 0 \<and> dir gorged = UP \<and> lastStep gorged = 18000 \<and>
   stepMs gorged = 84 \<and> len gorged = 63 \<and> \<not> gameOverFlag gorged \<and> shaped gorged"
proof -
  have "\<exists>g'. run (Reset 0 # feed 0 tour_dirs) (power_on (flat tour_cells @- sconst 0)) = Some g' \<and>
           body g' = rev (butlast tour_cells) @ start_body \<and> apple g' = last tour_cells \<and>
           rnd g' = sconst 0 \<and> dir g' = last (RIGHT # tour_dirs) \<and>
           lastStep g' = 0 + 300 * of_nat (length tour_dirs) \<and>
           stepMs g' = (speed ^^ length tour_dirs) 300 \<and> len g' = 3 + length tour_dirs \<and>
           \<not> gameOverFlag g' \<and> shaped g'"
    by (rule feast [OF _ tour_no_reverse tour_trail _ tour_distinct tour_inside])
      (simp_all add: tour_length tour_cells_def)
  moreover have "(speed ^^ 60) 300 = 84"
    by (simp add: speed_funpow_numeral speed_def)
  moreover have "last tour_cells = (6, 0)" by (simp add: tour_cells_def)
  moreover have "last (RIGHT # tour_dirs) = UP" by (simp add: tour_dirs_def)
  ultimately show ?thesis by (auto simp: gorged_def tour_length)
qed

lemma tour_hangs: "update 18300 (setPending LEFT gorged) = None"
proof (rule last_bite_hangs)
  show "shaped gorged" "\<not> gameOverFlag gorged" "len gorged = 63"
    using tour_run by simp_all
  show "\<not> opposite (dir gorged) LEFT" using tour_run by (simp add: opposite_def)
  show "due 18300 gorged" using tour_run by (simp add: due_def)
  have "hd (body gorged) = (7, 0)"
    using tour_run by (simp add: tour_cells_def)
  then show "apple gorged = ahead LEFT (hd (body gorged))" using tour_run by simp
  show "\<not> outside (apple gorged)" using tour_run by (simp add: outside_def)
  have "distinct (last tour_cells # rev (butlast tour_cells) @ start_body)"
    using tour_distinct by (simp add: tour_cells_def start_body_def)
  then show "apple gorged \<notin> set (body gorged)"
    using tour_run by (simp add: tour_cells_def)
  show "sset (rnd gorged) \<subseteq> {0..7}" using tour_run by simp
qed

section \<open>The step interval\<close>

lemma eats_ahead:
  assumes "shaped g" "\<not> opposite (dir g) (pending g)"
    and "apple g = ahead (pending g) (hd (body g))" "\<not> outside (apple g)"
    and "apple g \<notin> set (body g)"
  shows "eats g"
proof -
  have nc: "next_cell g = apple g"
    using next_cell_ahead [OF assms(1,2)] assms(3) by simp
  then show ?thesis
    using assms(4,5) by (simp add: eats_def crashes_iff [OF assms(1)] ate_def)
qed

lemma first_bite:
  "reset 0 (power_on (flat [(4, 4), (0, 0)] @- sconst 0)) = Some fresh"
  "update 300 (setPending RIGHT fresh) = Some fed_once"
  "shaped fresh" "\<not> gameOverFlag fresh" "body fresh = start_body" "apple fresh = (4, 4)"
  "dir fresh = RIGHT" "stepMs fresh = 300" "lastStep fresh = 0" "len fresh = 3"
  "body fed_once = (4, 4) # start_body" "len fed_once = 4" "stepMs fed_once = 288"
  "\<not> gameOverFlag fed_once" "apple fed_once = (0, 0)"
proof -
  let ?P = "power_on (flat [(4, 4), (0, 0)] @- sconst 0)"
  have "\<exists>g'. reset 0 ?P = Some g' \<and> body g' = start_body \<and> apple g' = (4, 4) \<and>
           rnd g' = 0 ## 0 ## sconst 0 \<and> dir g' = RIGHT \<and> lastStep g' = 0 \<and> stepMs g' = 300 \<and>
           len g' = 3 \<and> \<not> gameOverFlag g' \<and> shaped g'"
    by (rule boot_state) (simp_all add: outside_def start_body_def power_on_def)
  then have f: "reset 0 ?P = Some fresh" "shaped fresh" "\<not> gameOverFlag fresh"
    "body fresh = start_body" "apple fresh = (4, 4)" "dir fresh = RIGHT" "stepMs fresh = 300"
    "lastStep fresh = 0" "len fresh = 3"
    and r: "rnd fresh = 0 ## 0 ## sconst 0"
    by (auto simp: fresh_def)
  then show "reset 0 ?P = Some fresh" "shaped fresh" "\<not> gameOverFlag fresh"
    "body fresh = start_body" "apple fresh = (4, 4)" "dir fresh = RIGHT" "stepMs fresh = 300"
    "lastStep fresh = 0" "len fresh = 3"
    by simp_all
  have due: "due 300 fresh" by (simp add: due_def f)
  have ap: "apple fresh = ahead RIGHT (hd (body fresh))" "\<not> outside (apple fresh)"
    "apple fresh \<notin> set (body fresh)"
    by (simp_all add: f start_body_def outside_def)
  have turn: "\<not> opposite (dir fresh) RIGHT" by (simp add: f opposite_def)
  note eu = eat_update [OF f(2) f(3) turn due ap]
  let ?G = "bitten RIGHT 300 fresh"
  have bG: "body ?G = (4, 4) # start_body" and lG: "len ?G = 4"
    using eu(3,4) by (simp_all add: f)
  have "len ?G \<le> length (snake ?G)" using eu(2) by (simp add: shaped_def)
  from snakeHas_iff [OF this, of 0 0]
  have "\<not> snakeHas ?G (shd (rnd ?G)) (shd (stl (rnd ?G)))"
    by (simp add: bG r start_body_def)
  from spawn_hit [OF this]
  have "update 300 (setPending RIGHT fresh) =
          Some (draw (speed_up (?G\<lparr>rnd := sconst 0, apple := (0, 0)\<rparr>)))"
    unfolding eu(1) by (simp add: r int8_t_def)
  then have e: "fed_once = draw (speed_up (?G\<lparr>rnd := sconst 0, apple := (0, 0)\<rparr>))"
    and "update 300 (setPending RIGHT fresh) = Some fed_once"
    by (simp_all add: fed_once_def)
  then show "update 300 (setPending RIGHT fresh) = Some fed_once" by simp
  show "body fed_once = (4, 4) # start_body" "len fed_once = 4" "\<not> gameOverFlag fed_once"
    "apple fed_once = (0, 0)"
    using bG lG f(3) by (simp_all add: e)
  show "stepMs fed_once = 288"
    by (simp add: e stepMs_speed_up f speed_def)
qed

lemma step_stepMs:
  assumes "step g = Some g'"
  shows "stepMs g' = (if eats g then speed (stepMs g) else stepMs g)"
proof (cases "crashes g")
  case True
  with assms show ?thesis by (auto simp: step_unfold eats_def)
next
  case False
  show ?thesis
  proof (cases "ate g (next_cell g)")
    case True
    with False assms obtain g3
      where g3: "spawnApple ((advance g)\<lparr>sfx := eatApple (sfx g)\<rparr>) = Some g3"
        and g': "g' = speed_up g3"
      by (auto simp: step_unfold split: bind_splits)
    from spawnApple_frame [OF g3] have "stepMs g3 = stepMs g" by auto
    then show ?thesis using True False by (simp add: g' stepMs_speed_up eats_def)
  next
    case nonate: False
    with False assms show ?thesis by (auto simp: step_unfold eats_def)
  qed
qed

lemma update_stepMs:
  assumes "update now g = Some g'"
  shows "stepMs g' =
     (if \<not> gameOverFlag g \<and> due now g \<and> eats (g\<lparr>lastStep := now\<rparr>) then speed (stepMs g)
      else stepMs g)"
proof -
  consider "gameOverFlag g" | "\<not> gameOverFlag g" "\<not> due now g" | "\<not> gameOverFlag g" "due now g"
    by blast
  then show ?thesis
  proof cases
    case 1
    with assms show ?thesis by (auto simp: update_def)
  next
    case 2
    with assms show ?thesis by (auto simp: update_def)
  next
    case 3
    with assms obtain g1 where "step (g\<lparr>lastStep := now\<rparr>) = Some g1" "g' = draw g1"
      by (auto simp: update_def split: bind_splits)
    with step_stepMs [of "g\<lparr>lastStep := now\<rparr>" g1] 3 show ?thesis by simp
  qed
qed

lemma stepMs_ok_speed: "stepMs_ok v \<Longrightarrow> stepMs_ok (speed v)"
proof (cases "v > 90")
  case False
  assume "stepMs_ok v"
  with False show ?thesis by (simp add: speed_def)
next
  case True
  assume ok: "stepMs_ok v"
  from True have gt: "90 < unat v" by (simp add: word_less_nat_alt)
  with ok have "96 \<le> unat v" unfolding stepMs_ok_def by presburger
  moreover have "unat (v - 12) = unat v - 12"
    using gt by (subst unat_sub) (simp_all add: word_le_nat_alt)
  ultimately show ?thesis
    using ok True unfolding stepMs_ok_def speed_def by auto
qed

lemma reset_stepMs: "reset now g = Some g' \<Longrightarrow> stepMs g' = 300"
  by (auto simp: reset_def split: bind_splits dest!: spawnApple_frame)

lemma reachable_stepMs_ok: "reachable g \<Longrightarrow> stepMs_ok (stepMs g)"
proof (induction rule: reachable.induct)
  case (boot rs now g)
  then show ?case by (simp add: reset_stepMs stepMs_ok_def)
next
  case (again g now g')
  then show ?case by (simp add: reset_stepMs stepMs_ok_def)
next
  case (heading g d)
  then show ?case by (simp add: setPending_def)
next
  case (tick g now g')
  then show ?case by (auto simp: update_stepMs stepMs_ok_speed)
qed

text \<open>
  C1 (amended). In every state reachable from \<open>reset\<close>, \<open>stepMs\<close> lies between 84 and 300;
  an \<open>update\<close> never increases it; an \<open>update\<close> whose step eats the apple subtracts 12
  as long as the interval is above 90 and leaves it unchanged otherwise, and every other
  \<open>update\<close> leaves it unchanged. The lowest value is 84, not 90: the interval starts at 300
  and goes down in twelves, so it passes from 96 to 84.
\<close>

theorem stepMs_non_increasing_floor_84:
  assumes "reachable g"
  shows "84 \<le> unat (stepMs g) \<and> unat (stepMs g) \<le> 300 \<and>
     (update now g = Some g' \<longrightarrow>
        stepMs g' \<le> stepMs g \<and>
        stepMs g' =
          (if \<not> gameOverFlag g \<and> due now g \<and> eats (g\<lparr>lastStep := now\<rparr>)
           then (if stepMs g > 90 then stepMs g - 12 else stepMs g)
           else stepMs g))"
proof -
  have ok: "stepMs_ok (stepMs g)" using assms by (rule reachable_stepMs_ok)
  have "speed (stepMs g) \<le> stepMs g" by (rule speed_le)
  then show ?thesis
    using ok update_stepMs [of now g g']
    by (auto simp: stepMs_ok_def speed_def)
qed

theorem stepMs_non_increasing_floor_84_witness:
  "reachable (setPending RIGHT fresh) \<and> update 300 (setPending RIGHT fresh) = Some fed_once \<and>
   eats ((setPending RIGHT fresh)\<lparr>lastStep := 300\<rparr>) \<and>
   stepMs (setPending RIGHT fresh) = 300 \<and> stepMs fed_once = 288"
proof -
  have "sset (flat [(4, 4), (0, 0)] @- sconst 0) \<subseteq> {0..7}" by simp
  from reachable.boot [OF this first_bite(1)]
  have r: "reachable (setPending RIGHT fresh)" by (rule reachable.heading)
  have e: "eats ((setPending RIGHT fresh)\<lparr>lastStep := 300\<rparr>)"
    by (rule eats_ahead)
      (simp_all add: setPending_def first_bite start_body_def opposite_def outside_def)
  show ?thesis
    using stepMs_non_increasing_floor_84 [OF r, of 300 fed_once] r e first_bite(2)
    by (simp add: setPending_def first_bite)
qed

text \<open>C1, as stated, fails: after eighteen apples the interval is 84 ms.\<close>

theorem stepMs_below_90_counterexample:
  "reachable starved \<and> unat (stepMs starved) = 84 \<and> \<not> 90 \<le> unat (stepMs starved)"
  using diet_reachable diet_run by simp

section \<open>The body stays in the grid and distinct; the length\<close>

lemma fed_once_reachable: "reachable fed_once"
proof -
  have "sset (flat [(4, 4), (0, 0)] @- sconst 0) \<subseteq> {0..7}" by simp
  from reachable.boot [OF this first_bite(1)]
  have "reachable (setPending RIGHT fresh)" by (rule reachable.heading)
  then show ?thesis using first_bite(2) by (rule reachable.tick)
qed

text \<open>
  C5. In every state reachable through \<open>reset\<close>, \<open>setPending\<close> and \<open>update\<close>, the body of
  the snake is the first \<open>len\<close> cells of the array, each of its cells lies in
  \<open>[0,7] \<times> [0,7]\<close>, and its cells are pairwise distinct. This holds after every
  completed step, also after one that ended the game (which leaves the body as it was).
\<close>

theorem body_in_grid_and_distinct:
  assumes "reachable g"
  shows "length (body g) = len g \<and>
         (\<forall>p \<in> set (body g). 0 \<le> fst p \<and> fst p \<le> 7 \<and> 0 \<le> snd p \<and> snd p \<le> 7) \<and>
         distinct (body g)"
proof -
  have "shaped g" using assms by (rule reachable_shaped)
  then show ?thesis by (fastforce simp: shaped_def outside_def body_def)
qed

theorem body_in_grid_and_distinct_witness:
  "reachable fed_once \<and> body fed_once = [(4, 4), (3, 4), (2, 4), (1, 4)] \<and>
   length (body fed_once) = len fed_once \<and> distinct (body fed_once)"
  using body_in_grid_and_distinct [OF fed_once_reachable] fed_once_reachable
  by (simp add: first_bite start_body_def)

text \<open>In a reachable state the apple is never on the snake; so the snake never covers
  the grid, and the step that would make it do so does not return.\<close>

lemma spawnApple_free:
  assumes "spawnApple g = Some g'" "sset (rnd g) \<subseteq> {0..7}"
  shows "apple_free g'"
proof -
  have "sset (rnd g) \<subseteq> {0..7} \<longrightarrow> apple_free g'"
  proof (rule spawnApple.raw_induct
      [where P = "\<lambda>g g'. sset (rnd g) \<subseteq> {0..7} \<longrightarrow> apple_free g'", OF _ assms(1)], goal_cases)
    case (1 sp h h')
    let ?h = "h\<lparr>rnd := stl (stl (rnd h))\<rparr>"
    show ?case
    proof
      assume r: "sset (rnd h) \<subseteq> {0..7}"
      have d: "shd (rnd h) \<in> sset (rnd h)" "shd (stl (rnd h)) \<in> sset (rnd h)"
        by (simp_all add: shd_sset stl_sset)
      have r': "sset (rnd ?h) \<subseteq> {0..7}" using r by (auto dest: stl_sset)
      show "apple_free h'"
      proof (cases "snakeHas ?h (shd (rnd h)) (shd (stl (rnd h)))")
        case True
        with 1(2) have "sp ?h = Some h'" by (simp add: Let_def)
        from 1(1) [OF this] r' show ?thesis by simp
      next
        case False
        with 1(2) have h': "h' = ?h\<lparr>apple := (int8_t (shd (rnd h)), int8_t (shd (stl (rnd h))))\<rparr>"
          by (simp add: Let_def)
        have i: "int8_t (shd (rnd h)) = shd (rnd h)" "int8_t (shd (stl (rnd h))) = shd (stl (rnd h))"
          using d r by (auto intro!: int8_t_id)
        show ?thesis
          using False d r r' unfolding h' apple_free_def i by (auto simp: outside_def)
      qed
    qed
  qed
  with assms(2) show ?thesis by simp
qed

lemma apple_free_frame [simp]:
  "apple_free (draw g) = apple_free g" "apple_free (speed_up g) = apple_free g"
  "apple_free (triggerGameOver g) = apple_free g" "apple_free (resolve_dir g) = apple_free g"
  "apple_free (g\<lparr>pending := d\<rparr>) = apple_free g" "apple_free (g\<lparr>lastStep := t\<rparr>) = apple_free g"
  "apple_free (g\<lparr>matrix := m\<rparr>) = apple_free g"
  by (simp_all add: apple_free_def snakeHas_def)

lemma apple_free_advance:
  assumes "shaped g" "apple_free g" "\<not> crashes g" "\<not> ate g (next_cell g)"
  shows "apple_free (advance g)"
proof -
  have l: "len g \<le> length (snake g)" "length (snake g) = 64" "1 \<le> len g" "len g \<le> 64"
    using assms(1) by (auto simp: shaped_def)
  have sa: "shaped (advance g)" by (rule shaped_advance [OF assms(1,3)])
  then have la: "len (advance g) \<le> length (snake (advance g))" by (simp add: shaped_def)
  have b: "body (advance g) = next_cell g # take (len (advance g) - 1) (body g)"
    by (rule body_advance [OF l(2,3,4)])
  have "apple g \<notin> set (body g)"
    using assms(2) snakeHas_iff [OF l(1)] by (simp add: apple_free_def)
  then have "apple g \<notin> set (take (len (advance g) - 1) (body g))"
    by (meson in_set_takeD)
  moreover have "apple g \<noteq> next_cell g"
    using assms(4) by (auto simp: ate_def)
  ultimately have "apple (advance g) \<notin> set (body (advance g))"
    unfolding b by simp
  then show ?thesis
    using assms(2) snakeHas_iff [OF la] by (simp add: apple_free_def)
qed

lemma apple_free_step:
  assumes "shaped g" "apple_free g" "step g = Some g'"
  shows "apple_free g'"
proof (cases "crashes g")
  case True
  with assms show ?thesis by (auto simp: step_unfold)
next
  case False
  show ?thesis
  proof (cases "ate g (next_cell g)")
    case True
    with False assms(3) obtain g3
      where g3: "spawnApple ((advance g)\<lparr>sfx := eatApple (sfx g)\<rparr>) = Some g3"
        and g': "g' = speed_up g3"
      by (auto simp: step_unfold split: bind_splits)
    have "sset (rnd ((advance g)\<lparr>sfx := eatApple (sfx g)\<rparr>)) \<subseteq> {0..7}"
      using assms(2) by (simp add: apple_free_def)
    from spawnApple_free [OF g3 this] show ?thesis by (simp add: g')
  next
    case nonate: False
    with False assms(3) have "g' = advance g" by (auto simp: step_unfold)
    with apple_free_advance [OF assms(1,2) False nonate] show ?thesis by simp
  qed
qed

lemma apple_free_update:
  assumes "shaped g" "apple_free g" "update now g = Some g'"
  shows "apple_free g'"
proof -
  consider "gameOverFlag g" | "\<not> gameOverFlag g" "\<not> due now g" | "\<not> gameOverFlag g" "due now g"
    by blast
  then show ?thesis
  proof cases
    case 1
    with assms show ?thesis by (auto simp: update_def)
  next
    case 2
    with assms show ?thesis by (auto simp: update_def)
  next
    case 3
    with assms(3) obtain g1 where "step (g\<lparr>lastStep := now\<rparr>) = Some g1" "g' = draw g1"
      by (auto simp: update_def split: bind_splits)
    with apple_free_step [of "g\<lparr>lastStep := now\<rparr>" g1] assms(1,2) show ?thesis by simp
  qed
qed

lemma apple_free_reset:
  assumes "sset (rnd g) \<subseteq> {0..7}" "reset now g = Some g'"
  shows "apple_free g'"
proof -
  from assms(2) obtain g1 where
    "spawnApple (g\<lparr>gameOverFlag := False, dir := RIGHT, pending := RIGHT, stepMs := 300,
             lastStep := now, len := 3,
             snake := (snake g)[0 := (3, 4), 1 := (2, 4), 2 := (1, 4)]\<rparr>) = Some g1"
    and g': "g' = draw g1"
    by (auto simp: reset_def split: bind_splits)
  from spawnApple_free [OF this(1)] assms(1) show ?thesis by (simp add: g')
qed

lemma reachable_apple_free: "reachable g \<Longrightarrow> apple_free g"
proof (induction rule: reachable.induct)
  case (boot rs now g)
  then show ?case by (intro apple_free_reset [of "power_on rs" now]) (simp_all add: power_on_def)
next
  case (again g now g')
  then show ?case by (intro apple_free_reset [of g now]) (simp_all add: apple_free_def)
next
  case (heading g d)
  then show ?case by (simp add: setPending_def)
next
  case (tick g now g')
  then show ?case using apple_free_update reachable_shaped by blast
qed

lemma reachable_below_capacity:
  assumes "reachable g"
  shows "len g < NUM_LEDS"
proof (rule ccontr)
  assume "\<not> len g < NUM_LEDS"
  moreover have sh: "shaped g" using assms by (rule reachable_shaped)
  ultimately have "len g = 64" by (simp add: shaped_def)
  with sh have full: "grid_full g" by (rule shaped_full)
  have af: "apple_free g" using assms by (rule reachable_apple_free)
  then have "fst (apple g) \<in> {0..7}" "snd (apple g) \<in> {0..7}"
    by (auto simp: apple_free_def outside_def)
  with full have "snakeHas g (fst (apple g)) (snd (apple g))" by (simp add: grid_full_def)
  with af show False by (simp add: apple_free_def)
qed

lemma capacity_step_hangs:
  assumes "reachable g" "eats g" "len g = 63"
  shows "step g = None"
proof -
  have sh: "shaped g" using assms(1) by (rule reachable_shaped)
  have nc: "\<not> crashes g" and a: "ate g (next_cell g)" using assms(2) by (simp_all add: eats_def)
  have "shaped (advance g)" by (rule shaped_advance [OF sh nc])
  moreover have "len (advance g) = 64"
    using len_advance [of g] a assms(3) by simp
  ultimately have "grid_full (advance g)" by (rule shaped_full)
  then have "grid_full ((advance g)\<lparr>sfx := eatApple (sfx g)\<rparr>)"
    by (simp add: grid_full_def)
  moreover have "sset (rnd ((advance g)\<lparr>sfx := eatApple (sfx g)\<rparr>)) \<subseteq> {0..7}"
    using reachable_apple_free [OF assms(1)] by (simp add: apple_free_def)
  ultimately have "spawnApple ((advance g)\<lparr>sfx := eatApple (sfx g)\<rparr>) = None"
    by (rule spawn_full)
  then show ?thesis using nc a by (simp add: step_unfold)
qed

lemma len_step:
  "map_option len (step g) =
     (if eats g
      then map_option (\<lambda>_. len (advance g)) (spawnApple ((advance g)\<lparr>sfx := eatApple (sfx g)\<rparr>))
      else Some (len g))"
proof (cases "crashes g")
  case True
  then show ?thesis by (simp add: step_unfold eats_def)
next
  case False
  show ?thesis
  proof (cases "ate g (next_cell g)")
    case True
    show ?thesis
    proof (cases "spawnApple ((advance g)\<lparr>sfx := eatApple (sfx g)\<rparr>)")
      case None
      with True False show ?thesis by (simp add: step_unfold eats_def)
    next
      case (Some g3)
      from spawnApple_frame [OF this] have "len g3 = len (advance g)" by auto
      with Some True False show ?thesis by (simp add: step_unfold eats_def)
    qed
  next
    case nonate: False
    then have "len (advance g) = len g" by (simp add: advance_def Let_def)
    with nonate False show ?thesis by (simp add: step_unfold eats_def)
  qed
qed

text \<open>
  C6. The growth statement of the step, \<^verbatim>\<open>if (ate && len < NUM_LEDS) len++\<close>, never reduces
  the length: it adds exactly 1 when the step eats and the length is below the capacity 64,
  and leaves the length as it is otherwise, also when the step eats at length 64. Nothing
  else in the step changes the length, so a step that does not eat returns a state of the
  same length, and a step that eats returns a state of the grown length whenever it
  returns, which is whenever \<open>spawnApple\<close> returns. In the reachable states the length is
  below 64, and the step that eats at length 63 stores the length 64 and does not return
  (the snake covers the grid): a run sees the lengths from 3 to 63.
\<close>

theorem eating_grows_by_one_up_to_capacity:
  "len (advance g) = (if ate g (next_cell g) \<and> len g < NUM_LEDS then len g + 1 else len g) \<and>
   len g \<le> len (advance g) \<and>
   map_option len (step g) =
     (if eats g
      then map_option (\<lambda>_. if len g < NUM_LEDS then len g + 1 else len g)
             (spawnApple ((advance g)\<lparr>sfx := eatApple (sfx g)\<rparr>))
      else Some (len g)) \<and>
   (reachable g \<longrightarrow> len g < NUM_LEDS \<and> (eats g \<and> len g = 63 \<longrightarrow> step g = None))"
proof -
  have a: "len (advance g) = (if ate g (next_cell g) \<and> len g < NUM_LEDS then len g + 1 else len g)"
    by (simp add: advance_def Let_def)
  have "eats g \<Longrightarrow> len (advance g) = (if len g < NUM_LEDS then len g + 1 else len g)"
    using a by (simp add: eats_def)
  then have "map_option len (step g) =
     (if eats g
      then map_option (\<lambda>_. if len g < NUM_LEDS then len g + 1 else len g)
             (spawnApple ((advance g)\<lparr>sfx := eatApple (sfx g)\<rparr>))
      else Some (len g))"
    unfolding len_step by simp
  moreover have "reachable g \<longrightarrow> len g < NUM_LEDS \<and> (eats g \<and> len g = 63 \<longrightarrow> step g = None)"
    using reachable_below_capacity [of g] capacity_step_hangs [of g] by blast
  ultimately show ?thesis using a by simp
qed

theorem eating_grows_by_one_up_to_capacity_witness:
  "eats ((setPending RIGHT fresh)\<lparr>lastStep := 300\<rparr>) \<and>
   len ((setPending RIGHT fresh)\<lparr>lastStep := 300\<rparr>) = 3 \<and>
   map_option len (step ((setPending RIGHT fresh)\<lparr>lastStep := 300\<rparr>)) = Some 4 \<and>
   reachable (setPending LEFT gorged) \<and> eats (setPending LEFT gorged) \<and>
   len (setPending LEFT gorged) = 63 \<and> len (advance (setPending LEFT gorged)) = 64 \<and>
   step (setPending LEFT gorged) = None"
proof -
  let ?h = "(setPending RIGHT fresh)\<lparr>lastStep := 300\<rparr>"
  let ?k = "setPending LEFT gorged"
  have "update 300 (setPending RIGHT fresh) = Option.bind (step ?h) (\<lambda>g'. Some (draw g'))"
    by (simp add: update_def setPending_def first_bite due_def)
  with first_bite(2) obtain g1 where g1: "step ?h = Some g1"
    by (auto split: bind_splits)
  have e: "eats ?h"
    by (rule eats_ahead)
      (simp_all add: setPending_def first_bite start_body_def opposite_def outside_def)
  have l: "len ?h = 3" by (simp add: setPending_def first_bite)
  have m: "map_option len (step ?h) =
      map_option (\<lambda>_. 4) (spawnApple ((advance ?h)\<lparr>sfx := eatApple (sfx ?h)\<rparr>))"
    using eating_grows_by_one_up_to_capacity [of ?h] e l by simp
  have s4: "map_option len (step ?h) = Some 4"
  proof (cases "spawnApple ((advance ?h)\<lparr>sfx := eatApple (sfx ?h)\<rparr>)")
    case None
    with m g1 show ?thesis by simp
  next
    case (Some z)
    with m show ?thesis by simp
  qed
  have "sset (flat tour_cells @- sconst 0) \<subseteq> {0..7}"
    using flat_in_range [OF tour_inside] by simp
  then have "reachable gorged" using tour_run by (blast intro: boot_run_reachable)
  then have r: "reachable ?k" by (rule reachable.heading)
  have hd: "hd (body gorged) = (7, 0)"
    using tour_run by (simp add: tour_cells_def)
  have "distinct (last tour_cells # rev (butlast tour_cells) @ start_body)"
    using tour_distinct by (simp add: tour_cells_def start_body_def)
  then have nb: "apple gorged \<notin> set (body gorged)"
    using tour_run by (simp add: tour_cells_def)
  have ek: "eats ?k"
    by (rule eats_ahead)
      (use tour_run hd nb in \<open>simp_all add: setPending_def opposite_def outside_def body_def\<close>)
  have lk: "len ?k = 63" using tour_run by (simp add: setPending_def)
  note t = eating_grows_by_one_up_to_capacity [of ?k]
  from t ek lk have a64: "len (advance ?k) = 64" by (simp add: eats_def)
  from t r ek lk have "step ?k = None" by blast
  with e l s4 r ek lk a64 show ?thesis by blast
qed

section \<open>The self-collision test\<close>

lemma butlast_body:
  "len g \<le> length (snake g) \<Longrightarrow> butlast (body g) = take (len g - 1) (snake g)"
  by (simp add: body_def butlast_take)

lemma crashes_body:
  assumes "len g \<le> length (snake g)"
  shows "crashes g \<longleftrightarrow>
     outside (next_cell g) \<or>
     (if next_cell g = apple g then next_cell g \<in> set (body g)
      else next_cell g \<in> set (butlast (body g)))"
proof -
  have a: "ate g (next_cell g) \<longleftrightarrow> next_cell g = apple g"
    by (auto simp: ate_def prod_eq_iff)
  show ?thesis
    unfolding crashes_def a butlast_body [OF assms]
    using snakeHas_iff [OF assms, of "fst (next_cell g)" "snd (next_cell g)"]
      snakeHasExceptTail_iff [OF assms, of "fst (next_cell g)" "snd (next_cell g)"]
    by auto
qed

text \<open>
  C4. Let \<open>next_cell g\<close> be the cell that the step computes as the next head, inside the
  grid. If it is not the apple, the step ends the game exactly when that cell is among the
  body cells other than the last one (the tail is ignored), and otherwise moves the snake.
  If it is the apple, the step ends the game exactly when the cell is among all the body
  cells, the tail included, and otherwise goes on to eat. A step that ends the game returns
  the state with the heading resolved, \<open>gameOverFlag\<close> set, the cross drawn and the tones
  played: the array, the length, the apple, the interval, the clock and the random source
  are as before.
\<close>

theorem tail_exclusion_rule:
  assumes "len g \<le> length (snake g)" "\<not> outside (next_cell g)"
  shows
    "(next_cell g \<noteq> apple g \<longrightarrow>
        (if next_cell g \<in> set (butlast (body g))
         then step g = Some (triggerGameOver (resolve_dir g))
         else step g = Some (advance g))) \<and>
     (next_cell g = apple g \<longrightarrow>
        (if next_cell g \<in> set (body g)
         then step g = Some (triggerGameOver (resolve_dir g))
         else step g = Option.bind (spawnApple ((advance g)\<lparr>sfx := eatApple (sfx g)\<rparr>))
                         (\<lambda>g3. Some (speed_up g3)))) \<and>
     triggerGameOver (resolve_dir g) =
       g\<lparr>dir := dir (resolve_dir g), gameOverFlag := True,
         matrix := drawGameOverCross (matrix g), sfx := gameOver (sfx g)\<rparr> \<and>
     gameOverFlag (advance g) = gameOverFlag g \<and>
     (\<forall>g'. spawnApple ((advance g)\<lparr>sfx := eatApple (sfx g)\<rparr>) = Some g' \<longrightarrow>
        gameOverFlag (speed_up g') = gameOverFlag g)"
proof -
  have a: "ate g (next_cell g) \<longleftrightarrow> next_cell g = apple g"
    by (auto simp: ate_def prod_eq_iff)
  have 1: "next_cell g \<noteq> apple g \<longrightarrow>
        (if next_cell g \<in> set (butlast (body g))
         then step g = Some (triggerGameOver (resolve_dir g))
         else step g = Some (advance g))"
    using assms(2) by (simp add: step_unfold crashes_body [OF assms(1)] a)
  have 2: "next_cell g = apple g \<longrightarrow>
        (if next_cell g \<in> set (body g)
         then step g = Some (triggerGameOver (resolve_dir g))
         else step g = Option.bind (spawnApple ((advance g)\<lparr>sfx := eatApple (sfx g)\<rparr>))
                         (\<lambda>g3. Some (speed_up g3)))"
  proof (intro impI)
    assume e: "next_cell g = apple g"
    then have "ate g (next_cell g)" by (simp add: ate_def)
    then show "if next_cell g \<in> set (body g)
         then step g = Some (triggerGameOver (resolve_dir g))
         else step g = Option.bind (spawnApple ((advance g)\<lparr>sfx := eatApple (sfx g)\<rparr>))
                         (\<lambda>g3. Some (speed_up g3))"
      using assms(2) e unfolding step_unfold crashes_body [OF assms(1)] by auto
  qed
  have 3: "triggerGameOver (resolve_dir g) =
       g\<lparr>dir := dir (resolve_dir g), gameOverFlag := True,
         matrix := drawGameOverCross (matrix g), sfx := gameOver (sfx g)\<rparr>"
    by (simp add: triggerGameOver_def resolve_dir_def)
  have 4: "\<forall>g'. spawnApple ((advance g)\<lparr>sfx := eatApple (sfx g)\<rparr>) = Some g' \<longrightarrow>
        gameOverFlag (speed_up g') = gameOverFlag g"
    by (auto dest!: spawnApple_frame)
  show ?thesis using 1 2 3 4 by simp
qed

theorem tail_exclusion_rule_witness:
  "len chaser \<le> length (snake chaser) \<and> \<not> outside (next_cell chaser) \<and>
   body chaser = [(1, 1), (1, 2), (2, 2), (2, 1)] \<and> next_cell chaser = (2, 1) \<and>
   next_cell chaser \<noteq> apple chaser \<and> step chaser = Some (advance chaser) \<and>
   body (advance chaser) = [(2, 1), (1, 1), (1, 2), (2, 2)] \<and> \<not> gameOverFlag (advance chaser)"
proof -
  have l: "len chaser \<le> length (snake chaser)" by (simp add: chaser_def)
  have n: "next_cell chaser = (2, 1)"
    by (simp add: chaser_def next_cell_def resolve_dir_def opposite_def next_point_def
        int8_t_def)
  have o: "\<not> outside (next_cell chaser)" by (simp add: n outside_def)
  have b: "body chaser = [(1, 1), (1, 2), (2, 2), (2, 1)]"
    by (simp add: chaser_def body_def)
  have ap: "apple chaser = (5, 5)" by (simp add: chaser_def)
  have "body (advance chaser) = next_cell chaser # take (len (advance chaser) - 1) (body chaser)"
    by (rule body_advance) (simp_all add: chaser_def)
  moreover have lc: "len chaser = 4" by (simp add: chaser_def)
  then have "len (advance chaser) = 4"
    using len_advance [of chaser] by (simp add: n ap ate_def)
  ultimately have ba: "body (advance chaser) = [(2, 1), (1, 1), (1, 2), (2, 2)]"
    by (simp add: n b)
  have "\<not> gameOverFlag (advance chaser)" by (simp add: chaser_def power_on_def)
  then show ?thesis
    using tail_exclusion_rule [OF l o] l o b n ap ba by simp
qed

section \<open>GAME_OVER\<close>

lemma length_strip_setXY [simp]: "length (strip (setXY x y c m)) = length (strip m)"
  by (simp add: setXY_def)

lemma length_strip_fold_cross:
  "length (strip (fold (\<lambda>i m'. setXY (7 - i) i c (setXY i i c m')) is m)) = length (strip m)"
  by (induction "is" arbitrary: m) simp_all

lemma strip_setXY_cong:
  "strip m = strip m' \<Longrightarrow> strip (setXY x y c m) = strip (setXY x y c m')"
  by (simp add: setXY_def)

lemma strip_fold_cross_cong:
  "strip m = strip m' \<Longrightarrow>
   strip (fold (\<lambda>i m'. setXY (7 - i) i c (setXY i i c m')) is m) =
   strip (fold (\<lambda>i m'. setXY (7 - i) i c (setXY i i c m')) is m')"
proof (induction "is" arbitrary: m m')
  case Nil
  then show ?case by simp
next
  case (Cons i "is")
  show ?case
    by (simp, rule Cons.IH, intro strip_setXY_cong, rule Cons.prems)
qed

lemma drawGameOverCross_idem:
  "drawGameOverCross (drawGameOverCross m) = drawGameOverCross m"
proof -
  let ?f = "\<lambda>i m'. setXY (7 - i) i (255, 0, 0) (setXY i i (255, 0, 0) m')"
  let ?d = "drawGameOverCross m"
  have l: "length (strip ?d) = length (strip m)"
    by (simp add: drawGameOverCross_def show_matrix_def clear_def length_strip_fold_cross)
  have "strip (clear ?d) = strip (clear m)" by (simp add: clear_def l)
  then have "strip (fold ?f [0..<8] (clear ?d)) = strip (fold ?f [0..<8] (clear m))"
    by (rule strip_fold_cross_cong)
  then have s: "strip (drawGameOverCross ?d) = strip ?d"
    by (simp add: drawGameOverCross_def show_matrix_def)
  have "shown (drawGameOverCross n) = strip (drawGameOverCross n)" for n
    by (simp add: drawGameOverCross_def show_matrix_def)
  with s have "shown (drawGameOverCross ?d) = shown ?d" by simp
  with s show ?thesis by simp
qed

lemma game_over_run:
  assumes "gameOverFlag g" "\<forall>t. Reset t \<notin> set cs"
  shows "\<exists>g'. run cs g = Some g' \<and> gameOverFlag g' \<and> snake g' = snake g \<and> len g' = len g \<and>
           apple g' = apple g \<and> dir g' = dir g \<and> stepMs g' = stepMs g \<and>
           lastStep g' = lastStep g \<and> rnd g' = rnd g \<and> sfx g' = sfx g \<and>
           (matrix g' = matrix g \<or> matrix g' = drawGameOverCross (matrix g))"
  using assms
proof (induction cs arbitrary: g)
  case Nil
  then show ?case by simp
next
  case (Cons c cs)
  have nr: "\<forall>t. Reset t \<notin> set cs" using Cons.prems(2) by auto
  show ?case
  proof (cases c)
    case (Reset t)
    with Cons.prems(2) show ?thesis by auto
  next
    case (SetPending d)
    have "gameOverFlag (setPending d g)" using Cons.prems(1) by (simp add: setPending_def)
    from Cons.IH [OF this nr] show ?thesis
      by (auto simp: SetPending setPending_def)
  next
    case (Update t)
    let ?g = "g\<lparr>matrix := drawGameOverCross (matrix g)\<rparr>"
    have u: "update t g = Some ?g" using Cons.prems(1) by (simp add: update_def)
    have "gameOverFlag ?g" using Cons.prems(1) by simp
    from Cons.IH [OF this nr] show ?thesis
      by (auto simp: Update u drawGameOverCross_idem)
  qed
qed

text \<open>
  C7. In GAME_OVER, \<open>update\<close> returns the state with the cross drawn on the matrix and
  nothing else changed: the array, the length, the apple, the heading, the pending heading,
  the interval, the clock, the random source and the sound log are as before. Drawing the
  cross twice is drawing it once. \<open>setPending\<close> keeps the engine in GAME_OVER too, so
  after any sequence of calls without a \<open>reset\<close> the engine is still in GAME_OVER with
  the same snake, apple, heading, interval and clock; \<open>reset\<close>, when it returns, leaves
  GAME_OVER.
\<close>

theorem game_over_update_is_inert:
  assumes "gameOverFlag g"
  shows "update now g = Some (g\<lparr>matrix := drawGameOverCross (matrix g)\<rparr>) \<and>
         drawGameOverCross (drawGameOverCross (matrix g)) = drawGameOverCross (matrix g) \<and>
         gameOverFlag (setPending d g) \<and>
         ((\<forall>t. Reset t \<notin> set cs) \<longrightarrow>
            (\<exists>g'. run cs g = Some g' \<and> gameOverFlag g' \<and> snake g' = snake g \<and> len g' = len g \<and>
               apple g' = apple g \<and> dir g' = dir g \<and> stepMs g' = stepMs g \<and>
               lastStep g' = lastStep g \<and> rnd g' = rnd g)) \<and>
         (\<forall>g'. reset now g = Some g' \<longrightarrow> \<not> gameOverFlag g')"
proof -
  have "\<forall>g'. reset now g = Some g' \<longrightarrow> \<not> gameOverFlag g'"
    by (auto simp: reset_def split: bind_splits dest!: spawnApple_frame)
  moreover have "(\<forall>t. Reset t \<notin> set cs) \<longrightarrow>
            (\<exists>g'. run cs g = Some g' \<and> gameOverFlag g' \<and> snake g' = snake g \<and> len g' = len g \<and>
               apple g' = apple g \<and> dir g' = dir g \<and> stepMs g' = stepMs g \<and>
               lastStep g' = lastStep g \<and> rnd g' = rnd g)"
    using game_over_run [OF assms, of cs] by blast
  ultimately show ?thesis
    using assms by (simp add: update_def setPending_def drawGameOverCross_idem)
qed

theorem game_over_update_is_inert_witness:
  "gameOverFlag (triggerGameOver fresh) \<and>
   update 700 (triggerGameOver fresh) =
     Some ((triggerGameOver fresh)\<lparr>matrix := drawGameOverCross (matrix (triggerGameOver fresh))\<rparr>) \<and>
   (\<forall>t. Reset t \<notin> set [Update 700, SetPending UP, Update 900]) \<and>
   (\<exists>g'. run [Update 700, SetPending UP, Update 900] (triggerGameOver fresh) = Some g' \<and>
      gameOverFlag g' \<and> snake g' = snake fresh \<and> len g' = 3 \<and> apple g' = (4, 4) \<and>
      stepMs g' = 300 \<and> lastStep g' = 0)"
proof -
  have g: "gameOverFlag (triggerGameOver fresh)" by simp
  have r: "\<forall>t. Reset t \<notin> set [Update 700, SetPending UP, Update 900]" by simp
  note t = game_over_update_is_inert [OF g, of 700 UP "[Update 700, SetPending UP, Update 900]"]
  from t have u: "update 700 (triggerGameOver fresh) =
     Some ((triggerGameOver fresh)\<lparr>matrix := drawGameOverCross (matrix (triggerGameOver fresh))\<rparr>)"
    by blast
  from t r obtain g' where "run [Update 700, SetPending UP, Update 900] (triggerGameOver fresh) = Some g'"
    "gameOverFlag g'" "snake g' = snake (triggerGameOver fresh)" "len g' = len (triggerGameOver fresh)"
    "apple g' = apple (triggerGameOver fresh)" "stepMs g' = stepMs (triggerGameOver fresh)"
    "lastStep g' = lastStep (triggerGameOver fresh)"
    by blast
  then have "\<exists>g'. run [Update 700, SetPending UP, Update 900] (triggerGameOver fresh) = Some g' \<and>
      gameOverFlag g' \<and> snake g' = snake fresh \<and> len g' = 3 \<and> apple g' = (4, 4) \<and>
      stepMs g' = 300 \<and> lastStep g' = 0"
    by (intro exI [of _ g']) (simp add: first_bite)
  with g r u show ?thesis by blast
qed

section \<open>The cadence test\<close>

text \<open>
  C9. Let the clock read \<open>t_last\<close> milliseconds when the last step was taken and
  \<open>t_now \<ge> t_last\<close> now, both counted without wrap-around, so that \<open>lastStep\<close> and
  \<open>now\<close> are these readings modulo \<open>2^32\<close>. Then \<open>now - lastStep\<close> is the elapsed time
  modulo \<open>2^32\<close>; when less than \<open>2^32\<close> ms have elapsed, the cadence test of
  \<open>update\<close> holds exactly when the elapsed time has reached \<open>stepMs\<close>, whether or not
  the counter wrapped in between; and \<open>update\<close> in RUNNING takes a step exactly when the
  test holds.
\<close>

theorem cadence_check_wrap_safe:
  fixes t_last t_now :: nat
  assumes "t_last \<le> t_now" "lastStep g = of_nat t_last" "now = of_nat t_now"
  shows "unat (now - lastStep g) = (t_now - t_last) mod 2 ^ 32 \<and>
         (t_now - t_last < 2 ^ 32 \<longrightarrow> (due now g \<longleftrightarrow> unat (stepMs g) \<le> t_now - t_last)) \<and>
         (\<not> gameOverFlag g \<longrightarrow>
            update now g =
              (if due now g then Option.bind (step (g\<lparr>lastStep := now\<rparr>)) (\<lambda>g'. Some (draw g'))
               else Some (draw g)))"
proof -
  have "now - lastStep g = of_nat (t_now - t_last)"
    using assms by (simp add: of_nat_diff)
  then have e: "unat (now - lastStep g) = (t_now - t_last) mod 2 ^ 32"
    by (simp add: unat_of_nat)
  then have "t_now - t_last < 2 ^ 32 \<longrightarrow> (due now g \<longleftrightarrow> unat (stepMs g) \<le> t_now - t_last)"
    by (simp add: due_def word_le_nat_alt)
  then show ?thesis using e by (simp add: update_def)
qed

theorem cadence_check_wrap_safe_witness:
  "(4294967196::nat) \<le> 4294967546 \<and>
   unat ((250::32 word) - lastStep (fresh\<lparr>lastStep := 4294967196\<rparr>)) = 350 \<and>
   (4294967546::nat) - 4294967196 < 2 ^ 32 \<and>
   due 250 (fresh\<lparr>lastStep := 4294967196\<rparr>) \<and> \<not> 250 \<ge> lastStep (fresh\<lparr>lastStep := 4294967196\<rparr>)"
proof -
  have a: "(4294967196::nat) \<le> 4294967546" by simp
  have b: "lastStep (fresh\<lparr>lastStep := 4294967196\<rparr>) = of_nat 4294967196" by simp
  have c: "(250::32 word) = of_nat 4294967546" by simp
  show ?thesis
    using cadence_check_wrap_safe [OF a b c] by (simp add: first_bite)
qed

section \<open>The input adapters\<close>

lemma snd_readDir: "snd (readDir fa accX accY current st) = smooth fa accX accY st"
  by (simp add: readDir_def smooth_def Let_def)

lemma fst_readDir:
  "fst (readDir fa accX accY current st) =
     decide (fx (smooth fa accX accY st)) (fy (smooth fa accX accY st)) current"
  by (simp add: readDir_def smooth_def decide_def Let_def)

lemma readDir_not_opposite: "\<not> opposite current (fst (readDir fa accX accY current st))"
  by (cases current) (simp_all add: fst_readDir decide_def opposite_def)


lemma readDir_dead_zone:
  assumes "\<bar>fx (snd (readDir fa accX accY current st))\<bar> < DEAD_G"
    and "\<bar>fy (snd (readDir fa accX accY current st))\<bar> < DEAD_G"
  shows "fst (readDir fa accX accY current st) = current"
  using assms unfolding snd_readDir fst_readDir decide_def by auto

text \<open>C3, as stated, fails: heading LEFT, the stick pushed fully to the positive x side and
  centred in y, the joystick adapter asks for RIGHT, the exact opposite.\<close>

theorem joystick_reversal_counterexample:
  "snd (read 1023 512 False LEFT LEFT) = RIGHT \<and> opposite LEFT (snd (read 1023 512 False LEFT LEFT))"
  by (simp add: read_def DEADZONE_def opposite_def)

text \<open>
  C3 (amended). The joystick adapter, called as \<^verbatim>\<open>loop()\<close> calls it (the pending heading
  initialised to the current one), returns the current heading when both axes are within
  the dead zone (at most 180 off centre); otherwise it takes the axis of strictly larger
  magnitude, the vertical one on a tie, and asks for the direction of its sign if that axis
  is beyond the dead zone. It has no anti-reversal of its own: it can ask for the exact
  opposite of the current heading, and such a request is dropped by the heading
  resolution of the engine's step. The tilt adapter never returns the opposite of the
  current heading.
\<close>

theorem joystick_contract:
  "(\<bar>uint rawX - 512\<bar> \<le> 180 \<and> \<bar>uint rawY - 512\<bar> \<le> 180 \<longrightarrow>
      snd (read rawX rawY low cur cur) = cur) \<and>
   snd (read rawX rawY low cur cur) =
     (if \<bar>uint rawX - 512\<bar> > \<bar>uint rawY - 512\<bar>
      then (if uint rawX - 512 > 180 then RIGHT else if uint rawX - 512 < - 180 then LEFT else cur)
      else (if uint rawY - 512 > 180 then DOWN else if uint rawY - 512 < - 180 then UP else cur)) \<and>
   (opposite (dir g) (snd (read rawX rawY low (dir g) (dir g))) \<longrightarrow>
      dir (resolve_dir (setPending (snd (read rawX rawY low (dir g) (dir g))) g)) = dir g) \<and>
   \<not> opposite cur (fst (readDir fa accX accY cur st))"
  by (auto simp: read_def DEADZONE_def Let_def resolve_dir_def setPending_def readDir_not_opposite)

theorem joystick_contract_witness:
  "\<bar>uint (600 :: 10 word) - 512\<bar> \<le> 180 \<and> \<bar>uint (500 :: 10 word) - 512\<bar> \<le> 180 \<and>
   snd (read 600 500 False UP UP) = UP \<and>
   opposite (dir fresh) (snd (read 0 512 False (dir fresh) (dir fresh))) \<and>
   dir (resolve_dir (setPending (snd (read 0 512 False (dir fresh) (dir fresh))) fresh)) = RIGHT"
proof -
  have a: "\<bar>uint (600 :: 10 word) - 512\<bar> \<le> 180 \<and> \<bar>uint (500 :: 10 word) - 512\<bar> \<le> 180"
    by simp
  have b: "opposite (dir fresh) (snd (read 0 512 False (dir fresh) (dir fresh)))"
    by (simp add: first_bite read_def DEADZONE_def opposite_def)
  show ?thesis
    using joystick_contract [of 600 500 False UP fresh]
      joystick_contract [of 0 512 False UP fresh] a b
    by (simp add: first_bite)
qed

text \<open>
  C10. When the two smoothed values have equal magnitude, \<open>readDir\<close> decides on the
  vertical axis alone: inside the dead zone it returns the current heading; outside it
  returns DOWN or UP by the sign of the vertical value against the trigger threshold
  (unless that would reverse the heading), and the current heading otherwise. It never
  answers LEFT or RIGHT unless that is the current heading. The joystick adapter does the
  same on a tie: DOWN, UP or the pending heading it was given.
\<close>

theorem tie_goes_to_vertical_axis:
  assumes "\<bar>fx (snd (readDir fa accX accY current st))\<bar> = \<bar>fy (snd (readDir fa accX accY current st))\<bar>"
    and "\<bar>uint rawX - 512\<bar> = \<bar>uint rawY - 512\<bar>"
  shows "fst (readDir fa accX accY current st) =
           (let v = fy (snd (readDir fa accX accY current st))
            in if \<bar>v\<bar> < DEAD_G then current
               else if v > TRIG_G \<and> current \<noteq> UP then DOWN
               else if v < - TRIG_G \<and> current \<noteq> DOWN then UP
               else current) \<and>
         fst (readDir fa accX accY current st) \<in> {UP, DOWN, current} \<and>
         snd (read rawX rawY low cur pendingDir) =
           (if uint rawY - 512 > 180 then DOWN else if uint rawY - 512 < - 180 then UP
            else pendingDir) \<and>
         snd (read rawX rawY low cur pendingDir) \<in> {UP, DOWN, pendingDir}"
proof -
  have "snd (read rawX rawY low cur pendingDir) =
           (if uint rawY - 512 > 180 then DOWN else if uint rawY - 512 < - 180 then UP
            else pendingDir)"
    using assms(2) by (simp add: read_def DEADZONE_def)
  moreover have "fst (readDir fa accX accY current st) =
           (let v = fy (snd (readDir fa accX accY current st))
            in if \<bar>v\<bar> < DEAD_G then current
               else if v > TRIG_G \<and> current \<noteq> UP then DOWN
               else if v < - TRIG_G \<and> current \<noteq> DOWN then UP
               else current)"
    using assms(1) unfolding snd_readDir fst_readDir decide_def Let_def by auto
  ultimately show ?thesis by (auto simp: Let_def)
qed

theorem tie_goes_to_vertical_axis_witness:
  "\<bar>fx (snd (readDir exact_arith 1000 1000 RIGHT filter_init))\<bar> =
     \<bar>fy (snd (readDir exact_arith 1000 1000 RIGHT filter_init))\<bar> \<and>
   \<not> \<bar>fy (snd (readDir exact_arith 1000 1000 RIGHT filter_init))\<bar> < DEAD_G \<and>
   \<bar>uint (1023 :: 10 word) - 512\<bar> = \<bar>uint (1 :: 10 word) - 512\<bar> \<and>
   fst (readDir exact_arith 1000 1000 RIGHT filter_init) = DOWN \<and>
   snd (read 1023 1 False RIGHT RIGHT) = UP"
proof -
  have f: "fx (snd (readDir exact_arith 1000 1000 RIGHT filter_init)) = c020"
    "fy (snd (readDir exact_arith 1000 1000 RIGHT filter_init)) = c020"
    by (simp_all add: snd_readDir smooth_def exact_arith_def filter_init_def)
  have a: "\<bar>fx (snd (readDir exact_arith 1000 1000 RIGHT filter_init))\<bar> =
     \<bar>fy (snd (readDir exact_arith 1000 1000 RIGHT filter_init))\<bar>"
    by (simp add: f)
  have b: "\<bar>uint (1023 :: 10 word) - 512\<bar> = \<bar>uint (1 :: 10 word) - 512\<bar>" by simp
  show ?thesis
    using tie_goes_to_vertical_axis [OF a b, of False RIGHT RIGHT] a b
    by (simp add: f c020_def DEAD_G_def TRIG_G_def)
qed

section \<open>Apple placement\<close>

lemma spawn_returns:
  assumes "\<not> snakeHas g (rnd g !! (2 * k)) (rnd g !! (2 * k + 1))"
  shows "\<exists>g'. spawnApple g = Some g'"
  using assms
proof (induction k arbitrary: g)
  case 0
  then have "\<not> snakeHas g (shd (rnd g)) (shd (stl (rnd g)))" by simp
  from spawn_hit [OF this] show ?case by simp
next
  case (Suc k)
  show ?case
  proof (cases "snakeHas g (shd (rnd g)) (shd (stl (rnd g)))")
    case False
    from spawn_hit [OF this] show ?thesis by simp
  next
    case True
    let ?g = "g\<lparr>rnd := stl (stl (rnd g))\<rparr>"
    have "\<not> snakeHas ?g (rnd ?g !! (2 * k)) (rnd ?g !! (2 * k + 1))"
      using Suc.prems by simp
    from Suc.IH [OF this] obtain g' where "spawnApple ?g = Some g'" by blast
    moreover have "spawnApple g = spawnApple ?g"
      using True by (subst spawnApple.simps) (simp add: Let_def)
    ultimately show ?thesis by simp
  qed
qed

text \<open>
  C2, evaluated where it fails. The run: \<open>reset\<close>, then sixty steps that each eat the
  apple (the apple is drawn every time on the cell the head enters next, along a path
  through all the cells that the snake does not cover). It returns the state \<open>gorged\<close>:
  reachable, RUNNING, 63 cells long, the apple on the last free cell \<open>(6, 0)\<close>, next to
  the head. The next step eats that apple, the length becomes 64, the snake covers the grid,
  and \<open>spawnApple\<close> never returns: \<open>update\<close> is \<open>None\<close>, and so is the whole run.
\<close>

theorem spawnApple_hangs_on_full_grid:
  "run (Reset 0 # feed 0 tour_dirs) (power_on (flat tour_cells @- sconst 0)) = Some gorged \<and>
   reachable gorged \<and> \<not> gameOverFlag gorged \<and> len gorged = 63 \<and> apple gorged = (6, 0) \<and>
   sset (rnd gorged) \<subseteq> {0..7} \<and>
   update 18300 (setPending LEFT gorged) = None \<and>
   run (Reset 0 # feed 0 tour_dirs @ [SetPending LEFT, Update 18300])
     (power_on (flat tour_cells @- sconst 0)) = None"
proof -
  let ?P = "power_on (flat tour_cells @- sconst 0)"
  have "sset (flat tour_cells @- sconst 0) \<subseteq> {0..7}"
    using flat_in_range [OF tour_inside] by simp
  then have r: "reachable gorged" using tour_run by (blast intro: boot_run_reachable)
  have "run ((Reset 0 # feed 0 tour_dirs) @ [SetPending LEFT, Update 18300]) ?P = None"
    unfolding run_append using tour_run tour_hangs by simp
  then show ?thesis using r tour_run tour_hangs by simp
qed

section \<open>The main loops\<close>

text \<open>Both main loops keep the engine within the reachable states.\<close>

lemma loop_joystick_reachable:
  assumes "reachable g" "loop_joystick rawX rawY low t_reset t_update g = Some g'"
  shows "reachable g'"
proof -
  obtain p where p: "read rawX rawY low (getDir g) (getDir g) = (low, p)"
    by (simp add: read_def Let_def)
  have r: "reachable (setPending p g)" using assms(1) by (rule reachable.heading)
  show ?thesis
  proof (cases low)
    case True
    with assms(2) p obtain g1 where "reset t_reset (setPending p g) = Some g1"
      "update t_update g1 = Some g'"
      by (auto simp: loop_joystick_def split: bind_splits)
    with r show ?thesis by (blast intro: reachable.again reachable.tick)
  next
    case False
    with assms(2) p have "update t_update (setPending p g) = Some g'"
      by (simp add: loop_joystick_def)
    with r show ?thesis by (rule reachable.tick)
  qed
qed

lemma loop_tilt_reachable:
  assumes "reachable g" "loop_tilt fa pressed accX accY t_reset t_update (g, st) = Some (g', st')"
  shows "reachable g'"
proof -
  have tail: "reachable g'"
    if "reachable g1"
      and "(let (p, s) = readDir fa accX accY (getDir g1) st
            in Option.bind (update t_update (setPending p g1)) (\<lambda>h. Some (h, s))) = Some (g', st')"
    for g1
  proof -
    obtain p s where ps: "readDir fa accX accY (getDir g1) st = (p, s)"
      by (cases "readDir fa accX accY (getDir g1) st")
    with that(2) have "update t_update (setPending p g1) = Some g'"
      by (auto split: bind_splits)
    moreover have "reachable (setPending p g1)" using that(1) by (rule reachable.heading)
    ultimately show ?thesis by (blast intro: reachable.tick)
  qed
  show ?thesis
  proof (cases pressed)
    case True
    with assms(2) obtain g1 where g1: "reset t_reset g = Some g1"
      "(let (p, s) = readDir fa accX accY (getDir g1) st
        in Option.bind (update t_update (setPending p g1)) (\<lambda>h. Some (h, s))) = Some (g', st')"
      by (auto simp: loop_tilt_def split: bind_splits)
    from reachable.again [OF assms(1) g1(1)] g1(2) show ?thesis by (rule tail)
  next
    case False
    with assms(2) have "(let (p, s) = readDir fa accX accY (getDir g) st
        in Option.bind (update t_update (setPending p g)) (\<lambda>h. Some (h, s))) = Some (g', st')"
      by (simp add: loop_tilt_def)
    with assms(1) show ?thesis by (rule tail)
  qed
qed

section \<open>A quiet sensor keeps the heading\<close>


lemma quiet_offsets:
  "ax0 st' = ax0 st \<Longrightarrow> ay0 st' = ay0 st \<Longrightarrow> quiet fa S st' samples = quiet fa S st samples"
  by (simp add: quiet_def)













end
